theory Spec2Isabelle
  imports Complex_Main
begin

section \<open>Configuration and messages\<close>

text \<open>
  The repository holds several revisions of the page script \<^verbatim>\<open>app.js\<close> and of the
  worker script; the queue, the upload scheduler, the animation loop and the worker's
  credit handling are the same in all of them.  The model follows the first revision of
  \<^verbatim>\<open>app.js\<close> and the worker it loads.  Image synthesis, WebGL set-up, rendering and the
  FPS overlay are left out: they read the modelled state and do not change it.
\<close>

subsection \<open>Double-precision arithmetic\<close>

text \<open>
  JavaScript numbers are IEEE doubles.  Row counts and slot indices are small integers, on
  which the operations of the source are exact; they are modelled as \<open>int\<close> and \<open>nat\<close>.
  The crossfade progress \<^verbatim>\<open>t\<close> and its increment \<^verbatim>\<open>dt\<close> are fractions, and the
  source's \<^verbatim>\<open>+\<close>, \<^verbatim>\<open>-\<close> and \<^verbatim>\<open>/\<close> on them round.  A value of \<^verbatim>\<open>t\<close> is modelled as
  the real number the double stands for, and each operation as the exact operation
  followed by rounding to 53 significant bits, to nearest, ties to even.  The exponent is
  searched over 1100 binary places in either direction from 1, which covers the normal
  range of doubles; overflow and subnormal numbers are not modelled, and none arises from
  the values the program computes.
\<close>

fun normalize53 :: "nat \<Rightarrow> real \<Rightarrow> int \<Rightarrow> real \<times> int" where
  "normalize53 0 m e = (m, e)"
| "normalize53 (Suc n) m e =
     (if 2 ^ 53 \<le> m then normalize53 n (m / 2) (e + 1)
      else if m < 2 ^ 52 then normalize53 n (2 * m) (e - 1)
      else (m, e))"

definition round_even :: "real \<Rightarrow> int" where
  "round_even m =
     (let f = \<lfloor>m\<rfloor>; d = m - of_int f
      in if d < 1 / 2 then f else if 1 / 2 < d then f + 1
         else if even f then f else f + 1)"

definition scale2 :: "int \<Rightarrow> real \<Rightarrow> real" where
  "scale2 e x = (if 0 \<le> e then x * 2 ^ nat e else x / 2 ^ nat (- e))"

definition round53 :: "real \<Rightarrow> real" where
  "round53 x =
     (if x = 0 then 0
      else case normalize53 1100 \<bar>x\<bar> 0 of
             (m, e) \<Rightarrow> sgn x * scale2 e (of_int (round_even m)))"

definition double_add :: "real \<Rightarrow> real \<Rightarrow> real" where
  "double_add a b = round53 (a + b)"

definition double_sub :: "real \<Rightarrow> real \<Rightarrow> real" where
  "double_sub a b = round53 (a - b)"

definition double_div :: "real \<Rightarrow> real \<Rightarrow> real" where
  "double_div a b = round53 (a / b)"

subsection \<open>Constants\<close>

text \<open>
  The source fixes \<^verbatim>\<open>BUFFER_SIZE = 3\<close>, \<^verbatim>\<open>g_tex_H = HP * HG = 128 * 4\<close> and
  \<^verbatim>\<open>steps = 10\<close>; these constants are gathered in a record so that properties can be
  stated for every ring size, texture height and number of crossfade steps.  The record
  also carries the three operations on fractions, so that a general property says which
  facts of the arithmetic it rests on; \<open>app_config\<close> holds the source's constants and
  the double-precision operations.
\<close>

record config =
  BUFFER_SIZE :: nat
  g_tex_H :: int
  steps :: nat
  fadd :: "real \<Rightarrow> real \<Rightarrow> real"
  fsub :: "real \<Rightarrow> real \<Rightarrow> real"
  fdiv :: "real \<Rightarrow> real \<Rightarrow> real"

definition MAX_QUEUE_SIZE :: "config \<Rightarrow> nat" where
  "MAX_QUEUE_SIZE cfg = BUFFER_SIZE cfg"

text \<open>\<^verbatim>\<open>const dt = 1.0 / steps\<close>.\<close>

definition dt :: "config \<Rightarrow> real" where
  "dt cfg = fdiv cfg 1 (real (steps cfg))"

definition app_config :: config where
  "app_config = \<lparr>BUFFER_SIZE = 3, g_tex_H = 128 * 4, steps = 10,
     fadd = double_add, fsub = double_sub, fdiv = double_div\<rparr>"

text \<open>
  A queue item \<^verbatim>\<open>{ slotIdx, imageData, generationTime }\<close>.  The pixel buffer is
  represented by an identifier; \<^verbatim>\<open>generationTime\<close> only feeds the FPS overlay and is
  left out.
\<close>

record frame =
  slotIdx :: nat
  imageData :: nat

datatype to_worker_msg = Start_generating | Queue_has_space

datatype to_main_msg = Ready | Image frame | Error string

section \<open>The consumer: \<^verbatim>\<open>app.js\<close>\<close>

text \<open>
  A suspended \<^verbatim>\<open>await queueGet()\<close> is a promise resolver stored in \<^verbatim>\<open>queueWaiters\<close>.
  Only two places of the program await it: iteration \<open>i\<close> of the loop of
  \<^verbatim>\<open>fillBuffer\<close>, and the rotation branch of \<^verbatim>\<open>animate\<close>.  A resolver is
  represented by the continuation it resumes.
\<close>

datatype waiter = FillBuffer nat | Animate

record pending =
  p_slotIdx :: nat
  pboIdx :: nat
  rgbData :: nat
  rowsUploaded :: int

text \<open>
  Texture uploads are the observable effect of the consumer:
  \<^verbatim>\<open>uploadTextureComplete(slotIdx, imageData)\<close> and
  \<^verbatim>\<open>uploadTextureChunkWithPBO(texIdx, pboIdx, rgbData, yOffset, chunkHeight)\<close>.
\<close>

datatype gl_upload =
  TexComplete nat nat
  | TexChunk nat nat nat int int

datatype console_entry = Pending_upload_not_finished | Worker_error string

text \<open>
  The module-level variables of \<^verbatim>\<open>app.js\<close>.  \<open>frameRequested\<close> holds while a
  \<^verbatim>\<open>requestAnimationFrame(animate)\<close> callback is outstanding.  \<open>m_posted\<close>, \<open>uploads\<close>,
  \<open>console_errors\<close> and \<open>alerts\<close> record the calls of \<^verbatim>\<open>worker.postMessage\<close>, of the
  two upload functions, of \<^verbatim>\<open>console.error\<close> and of \<^verbatim>\<open>alert\<close>, in order.
  \<open>dequeued\<close> is a history variable: the values returned by \<^verbatim>\<open>await queueGet()\<close>.
\<close>

record main_state =
  isReady :: bool
  imageQueue :: "frame list"
  queueWaiters :: "waiter list"
  pendingUpload :: "pending option"
  t :: real
  currTexIdx :: nat
  nextTexIdx :: nat
  frameRequested :: bool
  m_posted :: "to_worker_msg list"
  uploads :: "gl_upload list"
  console_errors :: "console_entry list"
  alerts :: "string list"
  dequeued :: "frame list"

definition main_init :: main_state where
  "main_init = \<lparr>isReady = False, imageQueue = [], queueWaiters = [], pendingUpload = None,
     t = 0, currTexIdx = 0, nextTexIdx = 1, frameRequested = False, m_posted = [],
     uploads = [], console_errors = [], alerts = [], dequeued = []\<rparr>"

subsection \<open>The blocking queue\<close>

definition notify_space :: "config \<Rightarrow> main_state \<Rightarrow> main_state" where
  "notify_space cfg ms =
     (if length (imageQueue ms) < MAX_QUEUE_SIZE cfg
      then ms\<lparr>m_posted := m_posted ms @ [Queue_has_space]\<rparr> else ms)"

text \<open>
  \<^verbatim>\<open>queuePut(item)\<close>.  The result carries the resolver that was called and the item
  given to it, if any: the continuation runs as a microtask after \<^verbatim>\<open>queuePut\<close> has
  returned, so after the notification.
\<close>

definition queuePut :: "config \<Rightarrow> frame \<Rightarrow> main_state \<Rightarrow> (waiter \<times> frame) option \<times> main_state" where
  "queuePut cfg item ms =
     (let q = imageQueue ms @ [item] in
      case queueWaiters ms of
        [] \<Rightarrow> (None, notify_space cfg (ms\<lparr>imageQueue := q\<rparr>))
      | resolve # ws \<Rightarrow>
          (Some (resolve, hd q), notify_space cfg (ms\<lparr>queueWaiters := ws, imageQueue := tl q\<rparr>)))"

text \<open>
  \<^verbatim>\<open>queueGet()\<close>, called with the continuation that awaits it.  \<open>Some item\<close> is the
  immediate branch; \<open>None\<close> means the resolver was stored.
\<close>

definition queueGet :: "config \<Rightarrow> waiter \<Rightarrow> main_state \<Rightarrow> frame option \<times> main_state" where
  "queueGet cfg resolve ms =
     (case imageQueue ms of
        item # rest \<Rightarrow> (Some item, notify_space cfg (ms\<lparr>imageQueue := rest\<rparr>))
      | [] \<Rightarrow> (None, ms\<lparr>queueWaiters := queueWaiters ms @ [resolve]\<rparr>))"

subsection \<open>Progressive upload\<close>

text \<open>\<^verbatim>\<open>Math.max(1, Math.floor((1.0 - t) / dt))\<close>.\<close>

definition framesLeft :: "config \<Rightarrow> real \<Rightarrow> int" where
  "framesLeft cfg tv = max 1 \<lfloor>fdiv cfg (fsub cfg 1 tv) (dt cfg)\<rfloor>"

text \<open>\<^verbatim>\<open>Math.min(rowsLeft, Math.floor(rowsLeft / framesLeft) + 1)\<close>.  Both operands of the
  division are integers, and below \<^verbatim>\<open>2^52\<close> the floor of their double quotient is their
  integer quotient.\<close>

definition rowsToUpload :: "config \<Rightarrow> real \<Rightarrow> int \<Rightarrow> int" where
  "rowsToUpload cfg tv rowsDone =
     (let rowsLeft = g_tex_H cfg - rowsDone
      in min rowsLeft (rowsLeft div framesLeft cfg tv + 1))"

definition processProgressiveUpload :: "config \<Rightarrow> main_state \<Rightarrow> main_state" where
  "processProgressiveUpload cfg ms =
     (case pendingUpload ms of
        None \<Rightarrow> ms
      | Some p \<Rightarrow>
          let n = rowsToUpload cfg (t ms) (rowsUploaded p);
              ms1 = ms\<lparr>uploads := uploads ms @
                      [TexChunk (p_slotIdx p) (pboIdx p) (rgbData p) (rowsUploaded p) n]\<rparr>;
              p1 = p\<lparr>rowsUploaded := rowsUploaded p + n\<rparr>
          in if rowsUploaded p1 \<ge> g_tex_H cfg
             then ms1\<lparr>pendingUpload := None\<rparr>
             else ms1\<lparr>pendingUpload := Some p1\<rparr>)"

subsection \<open>The animation loop\<close>

text \<open>Steps 3 and 4 of \<^verbatim>\<open>animate\<close>: render, advance \<^verbatim>\<open>t\<close>, request the next frame.
  Rendering reads the textures and changes nothing that is modelled.\<close>

definition animate_render :: "config \<Rightarrow> main_state \<Rightarrow> main_state" where
  "animate_render cfg ms = ms\<lparr>t := fadd cfg (t ms) (dt cfg), frameRequested := True\<rparr>"

text \<open>The continuation of \<^verbatim>\<open>await queueGet()\<close> in \<^verbatim>\<open>animate\<close>.\<close>

definition animate_resume :: "config \<Rightarrow> frame \<Rightarrow> main_state \<Rightarrow> main_state" where
  "animate_resume cfg item ms =
     animate_render cfg (ms\<lparr>dequeued := dequeued ms @ [item],
        pendingUpload := Some \<lparr>p_slotIdx = slotIdx item, pboIdx = slotIdx item,
                               rgbData = imageData item, rowsUploaded = 0\<rparr>\<rparr>)"

text \<open>Step 2 of \<^verbatim>\<open>animate\<close>: the transition check.\<close>

definition animate_rotate :: "config \<Rightarrow> main_state \<Rightarrow> main_state" where
  "animate_rotate cfg ms =
     (if t ms > 1 then
        let ms1 = ms\<lparr>t := 0,
                     currTexIdx := (currTexIdx ms + 1) mod BUFFER_SIZE cfg,
                     nextTexIdx := (nextTexIdx ms + 1) mod BUFFER_SIZE cfg\<rparr>;
            ms2 = (if pendingUpload ms1 \<noteq> None
                   then ms1\<lparr>console_errors := console_errors ms1 @ [Pending_upload_not_finished]\<rparr>
                   else ms1)
        in case queueGet cfg Animate ms2 of
             (Some item, ms3) \<Rightarrow> animate_resume cfg item ms3
           | (None, ms3) \<Rightarrow> ms3
      else animate_render cfg ms)"

text \<open>One run of the \<^verbatim>\<open>requestAnimationFrame\<close> callback, up to its suspension or end.
  Running the callback uses up the request; step 4 makes the next one.\<close>

definition animate :: "config \<Rightarrow> main_state \<Rightarrow> main_state" where
  "animate cfg ms =
     (let ms0 = ms\<lparr>frameRequested := False\<rparr>;
          ms1 = (if pendingUpload ms0 \<noteq> None then processProgressiveUpload cfg ms0 else ms0)
      in animate_rotate cfg ms1)"

subsection \<open>Filling the buffer and the message handler\<close>

text \<open>The body of the loop of \<^verbatim>\<open>fillBuffer\<close> after its \<^verbatim>\<open>await\<close>:
  \<^verbatim>\<open>uploadTextureComplete(slotIdx, imageData)\<close>.\<close>

definition fill_upload :: "frame \<Rightarrow> main_state \<Rightarrow> main_state" where
  "fill_upload item ms =
     ms\<lparr>dequeued := dequeued ms @ [item],
        uploads := uploads ms @ [TexComplete (slotIdx item) (imageData item)]\<rparr>"

text \<open>
  The loop of \<^verbatim>\<open>fillBuffer\<close> from iteration \<open>i\<close> on, up to its next suspension.  When
  the loop ends, \<^verbatim>\<open>animate()\<close> is called directly, which runs the first tick.
\<close>

function fillBuffer :: "config \<Rightarrow> nat \<Rightarrow> main_state \<Rightarrow> main_state" where
  "fillBuffer cfg i ms =
     (if i < BUFFER_SIZE cfg then
        (case queueGet cfg (FillBuffer i) ms of
           (Some item, ms1) \<Rightarrow> fillBuffer cfg (Suc i) (fill_upload item ms1)
         | (None, ms1) \<Rightarrow> ms1)
      else animate cfg ms)"
  by pat_completeness auto
termination
  by (relation "measure (\<lambda>(cfg, i, ms). BUFFER_SIZE cfg - i)") auto

text \<open>Calling a resolver with an item runs the continuation it stands for.\<close>

fun resume :: "config \<Rightarrow> waiter \<Rightarrow> frame \<Rightarrow> main_state \<Rightarrow> main_state" where
  "resume cfg (FillBuffer i) item ms = fillBuffer cfg (Suc i) (fill_upload item ms)"
| "resume cfg Animate item ms = animate_resume cfg item ms"

text \<open>\<^verbatim>\<open>worker.onmessage\<close> as installed by \<^verbatim>\<open>initWorker\<close>.\<close>

fun main_onmessage :: "config \<Rightarrow> to_main_msg \<Rightarrow> main_state \<Rightarrow> main_state" where
  "main_onmessage cfg Ready ms =
     fillBuffer cfg 0 (ms\<lparr>isReady := True, m_posted := m_posted ms @ [Start_generating]\<rparr>)"
| "main_onmessage cfg (Image item) ms =
     (case queuePut cfg item ms of
        (None, ms1) \<Rightarrow> ms1
      | (Some (resolve, nextItem), ms1) \<Rightarrow> resume cfg resolve nextItem ms1)"
| "main_onmessage cfg (Error d) ms =
     ms\<lparr>console_errors := console_errors ms @ [Worker_error d],
        alerts := alerts ms @ [''Error: '' @ d]\<rparr>"

section \<open>The producer: the worker script\<close>

text \<open>
  The globals of the worker.  A suspended \<^verbatim>\<open>await waitToSend()\<close> is a resolver in
  \<^verbatim>\<open>queueSpaceWaiters\<close>; its continuation posts the \<^verbatim>\<open>result\<close> it holds and goes on
  generating, so the resolver is represented by that frame.  \<open>initPending\<close> holds while
  the call of \<^verbatim>\<open>init()\<close> made when the script loads has not finished.  \<open>generating\<close>
  counts the activations of \<^verbatim>\<open>continuousGenerate\<close> that are inside \<^verbatim>\<open>generateImage\<close>.
  \<open>w_posted\<close> records the calls of \<^verbatim>\<open>self.postMessage\<close>.
\<close>

record worker_state =
  worker_slotIdx :: nat
  isInitialized :: bool
  queueSpaceAvailable :: nat
  queueSpaceWaiters :: "frame list"
  initPending :: bool
  generating :: nat
  w_posted :: "to_main_msg list"

definition worker_init :: worker_state where
  "worker_init = \<lparr>worker_slotIdx = 0, isInitialized = False, queueSpaceAvailable = 0,
     queueSpaceWaiters = [], initPending = True, generating = 0, w_posted = []\<rparr>"

text \<open>\<^verbatim>\<open>init()\<close> succeeding, and failing with a message.\<close>

definition init_ok :: "worker_state \<Rightarrow> worker_state" where
  "init_ok w = w\<lparr>isInitialized := True, initPending := False, w_posted := w_posted w @ [Ready]\<rparr>"

definition init_fail :: "string \<Rightarrow> worker_state \<Rightarrow> worker_state" where
  "init_fail d w = w\<lparr>initPending := False, w_posted := w_posted w @ [Error d]\<rparr>"

text \<open>The end of a successful \<^verbatim>\<open>generateImage()\<close>: the result takes the current slot,
  and the slot counter advances.\<close>

definition generateImage :: "config \<Rightarrow> nat \<Rightarrow> worker_state \<Rightarrow> frame \<times> worker_state" where
  "generateImage cfg d w =
     (\<lparr>slotIdx = worker_slotIdx w, imageData = d\<rparr>,
      w\<lparr>worker_slotIdx := (worker_slotIdx w + 1) mod BUFFER_SIZE cfg\<rparr>)"

text \<open>\<^verbatim>\<open>waitToSend()\<close>, called by the activation that holds \<open>result\<close>.  \<open>True\<close> means
  the promise was resolved at once.\<close>

definition waitToSend :: "frame \<Rightarrow> worker_state \<Rightarrow> bool \<times> worker_state" where
  "waitToSend result w =
     (if queueSpaceAvailable w > 0
      then (True, w\<lparr>queueSpaceAvailable := queueSpaceAvailable w - 1\<rparr>)
      else (False, w\<lparr>queueSpaceWaiters := queueSpaceWaiters w @ [result]\<rparr>))"

text \<open>One iteration of \<^verbatim>\<open>continuousGenerate\<close> whose \<^verbatim>\<open>generateImage()\<close> succeeds with
  pixel data \<open>d\<close>: the frame is posted, or the activation suspends.\<close>

definition continuousGenerate :: "config \<Rightarrow> nat \<Rightarrow> worker_state \<Rightarrow> worker_state" where
  "continuousGenerate cfg d w =
     (case generateImage cfg d w of
        (result, w1) \<Rightarrow>
          (case waitToSend result w1 of
             (True, w2) \<Rightarrow> w2\<lparr>w_posted := w_posted w2 @ [Image result]\<rparr>
           | (False, w2) \<Rightarrow> w2\<lparr>generating := generating w2 - 1\<rparr>))"

text \<open>An iteration whose \<^verbatim>\<open>generateImage()\<close> throws: the error is posted, \<^verbatim>\<open>null\<close> is
  returned and the \<^verbatim>\<open>while (true)\<close> loop goes round again.\<close>

definition generate_fail :: "string \<Rightarrow> worker_state \<Rightarrow> worker_state" where
  "generate_fail d w = w\<lparr>w_posted := w_posted w @ [Error d]\<rparr>"

text \<open>\<^verbatim>\<open>self.onmessage\<close>.\<close>

fun worker_onmessage :: "config \<Rightarrow> to_worker_msg \<Rightarrow> worker_state \<Rightarrow> worker_state" where
  "worker_onmessage cfg Start_generating w =
     w\<lparr>queueSpaceAvailable := BUFFER_SIZE cfg, generating := generating w + 1\<rparr>"
| "worker_onmessage cfg Queue_has_space w =
     (case queueSpaceWaiters w of
        result # rest \<Rightarrow>
          w\<lparr>queueSpaceWaiters := rest, w_posted := w_posted w @ [Image result],
            generating := generating w + 1\<rparr>
      | [] \<Rightarrow> w\<lparr>queueSpaceAvailable := queueSpaceAvailable w + 1\<rparr>)"

section \<open>The two contexts and their message ports\<close>

text \<open>
  The page and the worker share no memory.  Messages are delivered in the order posted:
  \<open>worker_read\<close> is the number of messages of \<open>m_posted\<close> the worker has handled, and
  \<open>main_read\<close> the number of messages of \<open>w_posted\<close> the page has handled.  Each event
  is one task of one event loop, run to completion.
\<close>

record system =
  worker :: worker_state
  main :: main_state
  worker_read :: nat
  main_read :: nat

definition system_init :: system where
  "system_init = \<lparr>worker = worker_init, main = main_init, worker_read = 0, main_read = 0\<rparr>"

text \<open>
  The events: \<^verbatim>\<open>init()\<close> finishes, with success or with an error message; an activation
  of \<^verbatim>\<open>continuousGenerate\<close> gets a frame with the given pixel data from
  \<^verbatim>\<open>generateImage()\<close>, or \<^verbatim>\<open>generateImage()\<close> throws; the worker or the page handles
  the next message addressed to it; the animation frame callback runs.  An event that
  cannot happen in a state yields \<open>None\<close>.
\<close>

datatype event =
  Worker_init_ok
  | Worker_init_fail string
  | Worker_generated nat
  | Worker_generate_fail string
  | Worker_receive
  | Main_receive
  | Animation_frame

fun step :: "config \<Rightarrow> event \<Rightarrow> system \<Rightarrow> system option" where
  "step cfg Worker_init_ok s =
     (if initPending (worker s) then Some (s\<lparr>worker := init_ok (worker s)\<rparr>) else None)"
| "step cfg (Worker_init_fail d) s =
     (if initPending (worker s) then Some (s\<lparr>worker := init_fail d (worker s)\<rparr>) else None)"
| "step cfg (Worker_generated d) s =
     (if 0 < generating (worker s) \<and> isInitialized (worker s)
      then Some (s\<lparr>worker := continuousGenerate cfg d (worker s)\<rparr>) else None)"
| "step cfg (Worker_generate_fail d) s =
     (if 0 < generating (worker s) \<and> isInitialized (worker s)
      then Some (s\<lparr>worker := generate_fail d (worker s)\<rparr>) else None)"
| "step cfg Worker_receive s =
     (if worker_read s < length (m_posted (main s))
      then Some (s\<lparr>worker := worker_onmessage cfg (m_posted (main s) ! worker_read s) (worker s),
                   worker_read := Suc (worker_read s)\<rparr>)
      else None)"
| "step cfg Main_receive s =
     (if main_read s < length (w_posted (worker s))
      then Some (s\<lparr>main := main_onmessage cfg (w_posted (worker s) ! main_read s) (main s),
                   main_read := Suc (main_read s)\<rparr>)
      else None)"
| "step cfg Animation_frame s =
     (if frameRequested (main s) then Some (s\<lparr>main := animate cfg (main s)\<rparr>) else None)"

fun run :: "config \<Rightarrow> event list \<Rightarrow> system \<Rightarrow> system option" where
  "run cfg [] s = Some s"
| "run cfg (e # es) s = (case step cfg e s of None \<Rightarrow> None | Some s1 \<Rightarrow> run cfg es s1)"

section \<open>Notions used to state the properties\<close>

subsection \<open>Facts of the arithmetic\<close>

text \<open>
  What the results on the upload schedule need of the operations on fractions: \<^verbatim>\<open>dt\<close>
  is positive; subtracting a number above 1 from 1 gives no positive result; dividing a
  number that is not positive by a positive one gives no positive result.  Correctly
  rounded double operations have these properties, whatever the rounding.
\<close>

definition ieee_signs :: "config \<Rightarrow> bool" where
  "ieee_signs cfg \<longleftrightarrow>
     0 < dt cfg
     \<and> (\<forall>a. 1 < a \<longrightarrow> fsub cfg 1 a \<le> 0)
     \<and> (\<forall>x y. x \<le> 0 \<longrightarrow> 0 < y \<longrightarrow> fdiv cfg x y \<le> 0)"

subsection \<open>Upload chunks\<close>

text \<open>Successive invocations of the upload-advance step, at the given values of
  \<^verbatim>\<open>t\<close>.\<close>

fun upload_advances :: "config \<Rightarrow> real list \<Rightarrow> main_state \<Rightarrow> main_state" where
  "upload_advances cfg [] ms = ms"
| "upload_advances cfg (tv # tvs) ms =
     upload_advances cfg tvs (processProgressiveUpload cfg (ms\<lparr>t := tv\<rparr>))"

text \<open>A chunk is a pair of a row offset and a number of rows; it covers the rows from the
  offset on.\<close>

definition chunk_rows :: "int \<times> int \<Rightarrow> int list" where
  "chunk_rows c = [fst c .. fst c + snd c - 1]"

definition chunk_of :: "pending \<Rightarrow> int \<times> int \<Rightarrow> gl_upload" where
  "chunk_of p c = TexChunk (p_slotIdx p) (pboIdx p) (rgbData p) (fst c) (snd c)"

text \<open>Step 1 of \<^verbatim>\<open>animate\<close> on its own: the callback has been taken, and a pending
  upload is advanced.\<close>

definition upload_step :: "config \<Rightarrow> main_state \<Rightarrow> main_state" where
  "upload_step cfg m =
     (if pendingUpload (m\<lparr>frameRequested := False\<rparr>) \<noteq> None
      then processProgressiveUpload cfg (m\<lparr>frameRequested := False\<rparr>)
      else m\<lparr>frameRequested := False\<rparr>)"

subsection \<open>Frames and messages under way\<close>

fun image_of :: "to_main_msg \<Rightarrow> frame list" where
  "image_of (Image f) = [f]"
| "image_of Ready = []"
| "image_of (Error d) = []"

definition images :: "to_main_msg list \<Rightarrow> frame list" where
  "images msgs = concat (map image_of msgs)"

text \<open>The frames the worker has posted, and those the page has not yet received.\<close>

definition sent :: "system \<Rightarrow> frame list" where
  "sent s = images (w_posted (worker s))"

definition in_transit :: "system \<Rightarrow> frame list" where
  "in_transit s = images (drop (main_read s) (w_posted (worker s)))"

text \<open>Frames in flight: posted by the worker and not yet retired by the page, that is
  still under way, queued, or being uploaded.\<close>

definition framesInFlight :: "system \<Rightarrow> nat" where
  "framesInFlight s = length (in_transit s) + length (imageQueue (main s))
     + (case pendingUpload (main s) of None \<Rightarrow> 0 | Some p \<Rightarrow> 1)"

definition ready_pending :: "system \<Rightarrow> nat" where
  "ready_pending s = count_list (drop (main_read s) (w_posted (worker s))) Ready"

definition start_pending :: "system \<Rightarrow> nat" where
  "start_pending s = count_list (drop (worker_read s) (m_posted (main s))) Start_generating"

text \<open>The \<^verbatim>\<open>queue_has_space\<close> messages the worker has handled.\<close>

definition space_handled :: "system \<Rightarrow> nat" where
  "space_handled s = count_list (take (worker_read s) (m_posted (main s))) Queue_has_space"

text \<open>
  The start of the pipeline is a single token handed on: the pending \<^verbatim>\<open>init()\<close>, then
  the \<^verbatim>\<open>ready\<close> message, then the \<^verbatim>\<open>start_generating\<close> message, then the one
  activation of \<^verbatim>\<open>continuousGenerate\<close>, generating or suspended.
\<close>

definition token :: "system \<Rightarrow> nat" where
  "token s = (if initPending (worker s) then 1 else 0) + ready_pending s + start_pending s
     + generating (worker s) + length (queueSpaceWaiters (worker s))"

subsection \<open>Phases of the consumer\<close>

definition started_msg :: "main_state \<Rightarrow> bool" where
  "started_msg m \<longleftrightarrow> m_posted m \<noteq> [] \<and> m_posted m ! 0 = Start_generating"

text \<open>Before \<^verbatim>\<open>ready\<close>; inside \<^verbatim>\<open>fillBuffer\<close>, suspended in its \<^verbatim>\<open>queueGet\<close>; with an
  animation frame requested; inside \<^verbatim>\<open>animate\<close>, suspended in its \<^verbatim>\<open>queueGet\<close>.\<close>

definition idle :: "main_state \<Rightarrow> bool" where
  "idle m \<longleftrightarrow> \<not> isReady m \<and> queueWaiters m = [] \<and> imageQueue m = [] \<and> \<not> frameRequested m
      \<and> dequeued m = [] \<and> m_posted m = [] \<and> pendingUpload m = None \<and> t m = 0"

definition filling :: "config \<Rightarrow> main_state \<Rightarrow> bool" where
  "filling cfg m \<longleftrightarrow> isReady m \<and> queueWaiters m = [FillBuffer (length (dequeued m))]
      \<and> length (dequeued m) < BUFFER_SIZE cfg \<and> imageQueue m = [] \<and> \<not> frameRequested m
      \<and> pendingUpload m = None \<and> t m = 0 \<and> started_msg m"

definition running :: "config \<Rightarrow> main_state \<Rightarrow> bool" where
  "running cfg m \<longleftrightarrow> isReady m \<and> queueWaiters m = [] \<and> frameRequested m
      \<and> BUFFER_SIZE cfg \<le> length (dequeued m) \<and> started_msg m"

definition blocked :: "config \<Rightarrow> main_state \<Rightarrow> bool" where
  "blocked cfg m \<longleftrightarrow> isReady m \<and> queueWaiters m = [Animate] \<and> imageQueue m = []
      \<and> \<not> frameRequested m \<and> BUFFER_SIZE cfg \<le> length (dequeued m) \<and> started_msg m"

definition phase :: "config \<Rightarrow> main_state \<Rightarrow> bool" where
  "phase cfg m \<longleftrightarrow> idle m \<or> filling cfg m \<or> running cfg m \<or> blocked cfg m"

text \<open>The second state differs from the first in the messages posted by some
  \<^verbatim>\<open>queue_has_space\<close> messages at most.\<close>

definition notified :: "main_state \<Rightarrow> main_state \<Rightarrow> bool" where
  "notified m m' \<longleftrightarrow> (\<exists>k. m_posted m' = m_posted m @ replicate k Queue_has_space)"

text \<open>The texture indices as a function of the number of frames dequeued.\<close>

definition index_inv :: "config \<Rightarrow> main_state \<Rightarrow> bool" where
  "index_inv cfg m \<longleftrightarrow>
     (if queueWaiters m = [Animate]
      then currTexIdx m = (length (dequeued m) + 1) mod BUFFER_SIZE cfg
         \<and> nextTexIdx m = (length (dequeued m) + 2) mod BUFFER_SIZE cfg
      else if length (dequeued m) < BUFFER_SIZE cfg
      then currTexIdx m = 0 \<and> nextTexIdx m = 1
      else currTexIdx m = length (dequeued m) mod BUFFER_SIZE cfg
         \<and> nextTexIdx m = (length (dequeued m) + 1) mod BUFFER_SIZE cfg)"

subsection \<open>The invariant of the two contexts\<close>

definition slots_inv :: "config \<Rightarrow> system \<Rightarrow> bool" where
  "slots_inv cfg s \<longleftrightarrow>
     worker_slotIdx (worker s) =
       (length (sent s) + length (queueSpaceWaiters (worker s))) mod BUFFER_SIZE cfg
     \<and> map slotIdx (sent s @ queueSpaceWaiters (worker s)) =
       map (\<lambda>i. i mod BUFFER_SIZE cfg)
         [0 ..< length (sent s) + length (queueSpaceWaiters (worker s))]"

definition fifo_inv :: "system \<Rightarrow> bool" where
  "fifo_inv s \<longleftrightarrow> sent s = dequeued (main s) @ imageQueue (main s) @ in_transit s"

definition credit_inv :: "config \<Rightarrow> system \<Rightarrow> bool" where
  "credit_inv cfg s \<longleftrightarrow>
     (if 0 < generating (worker s) + length (queueSpaceWaiters (worker s))
      then queueSpaceAvailable (worker s) + length (sent s) = BUFFER_SIZE cfg + space_handled s
      else queueSpaceAvailable (worker s) = 0 \<and> sent s = [] \<and> worker_read s = 0)"

definition sys_inv :: "config \<Rightarrow> system \<Rightarrow> bool" where
  "sys_inv cfg s \<longleftrightarrow>
     worker_read s \<le> length (m_posted (main s))
     \<and> main_read s \<le> length (w_posted (worker s))
     \<and> token s \<le> 1
     \<and> (isReady (main s) \<longrightarrow> \<not> initPending (worker s) \<and> ready_pending s = 0)
     \<and> (\<not> isReady (main s) \<longrightarrow>
          generating (worker s) = 0 \<and> queueSpaceWaiters (worker s) = [] \<and> sent s = [])
     \<and> phase cfg (main s)
     \<and> slots_inv cfg s
     \<and> fifo_inv s
     \<and> credit_inv cfg s"

subsection \<open>Concrete states and executions\<close>

text \<open>A consumer state in which an upload into slot 0 has just been started, at \<^verbatim>\<open>t = dt\<close>
  (the double nearest to 0.1), as \<^verbatim>\<open>animate\<close> leaves it after a rotation.\<close>

definition started_pending :: pending where
  "started_pending = \<lparr>p_slotIdx = 0, pboIdx = 0, rgbData = 13, rowsUploaded = 0\<rparr>"

definition upload_started :: main_state where
  "upload_started =
     main_init\<lparr>isReady := True, frameRequested := True,
       t := 3602879701896397 / 36028797018963968,
       pendingUpload := Some started_pending\<rparr>"

text \<open>The chunks the source transfers from there, tick by tick.\<close>

definition double_chunks :: "(int \<times> int) list" where
  "double_chunks = [(0, 57), (57, 57), (114, 67), (181, 67), (248, 53), (301, 53),
     (354, 53), (407, 53), (460, 52)]"

text \<open>A consumer state forced to have \<^verbatim>\<open>t\<close> past 1 (the double 1.0999999999999999 that
  \<^verbatim>\<open>t\<close> reaches) while the upload has not transferred a single row, with the next frame
  queued.\<close>

definition rotation_due :: main_state where
  "rotation_due =
     main_init\<lparr>isReady := True, frameRequested := True,
       t := 4953959590107545 / 4503599627370496,
       pendingUpload := Some started_pending,
       imageQueue := [\<lparr>slotIdx = 1, imageData = 14\<rparr>]\<rparr>"

text \<open>The worker initialises, the page fills its three textures.\<close>

definition fill_events :: "event list" where
  "fill_events = [Worker_init_ok, Main_receive, Worker_receive,
     Worker_generated 10, Main_receive, Worker_receive,
     Worker_generated 11, Main_receive, Worker_receive,
     Worker_generated 12, Main_receive, Worker_receive]"

text \<open>Then a fourth frame arrives while the animation runs, and the worker handles the
  notification it triggers.\<close>

definition credit_events :: "event list" where
  "credit_events = fill_events @ [Worker_generated 13, Main_receive, Worker_receive]"

definition after_credit :: system where
  "after_credit =
     \<lparr>worker = \<lparr>worker_slotIdx = 1, isInitialized = True, queueSpaceAvailable = 3,
         queueSpaceWaiters = [], initPending = False, generating = 1,
         w_posted = [Ready, Image \<lparr>slotIdx = 0, imageData = 10\<rparr>,
           Image \<lparr>slotIdx = 1, imageData = 11\<rparr>, Image \<lparr>slotIdx = 2, imageData = 12\<rparr>,
           Image \<lparr>slotIdx = 0, imageData = 13\<rparr>]\<rparr>,
      main = \<lparr>isReady = True, imageQueue = [\<lparr>slotIdx = 0, imageData = 13\<rparr>],
         queueWaiters = [], pendingUpload = None,
         t = 3602879701896397 / 36028797018963968, currTexIdx = 0, nextTexIdx = 1,
         frameRequested = True,
         m_posted = [Start_generating, Queue_has_space, Queue_has_space, Queue_has_space,
           Queue_has_space],
         uploads = [TexComplete 0 10, TexComplete 1 11, TexComplete 2 12],
         console_errors = [], alerts = [],
         dequeued = [\<lparr>slotIdx = 0, imageData = 10\<rparr>, \<lparr>slotIdx = 1, imageData = 11\<rparr>,
           \<lparr>slotIdx = 2, imageData = 12\<rparr>]\<rparr>,
      worker_read = 5, main_read = 5\<rparr>"

text \<open>From there eleven animation frames bring about the rotation, which dequeues the
  fourth frame, and the worker handles the message this triggers.\<close>

definition double_credit_events :: "event list" where
  "double_credit_events =
     [Animation_frame, Animation_frame, Animation_frame, Animation_frame, Animation_frame,
      Animation_frame, Animation_frame, Animation_frame, Animation_frame, Animation_frame,
      Animation_frame, Worker_receive]"

definition after_double_credit :: system where
  "after_double_credit =
     \<lparr>worker = \<lparr>worker_slotIdx = 1, isInitialized = True, queueSpaceAvailable = 4,
         queueSpaceWaiters = [], initPending = False, generating = 1,
         w_posted = [Ready, Image \<lparr>slotIdx = 0, imageData = 10\<rparr>,
           Image \<lparr>slotIdx = 1, imageData = 11\<rparr>, Image \<lparr>slotIdx = 2, imageData = 12\<rparr>,
           Image \<lparr>slotIdx = 0, imageData = 13\<rparr>]\<rparr>,
      main = \<lparr>isReady = True, imageQueue = [], queueWaiters = [],
         pendingUpload = Some \<lparr>p_slotIdx = 0, pboIdx = 0, rgbData = 13, rowsUploaded = 0\<rparr>,
         t = 3602879701896397 / 36028797018963968, currTexIdx = 1, nextTexIdx = 2,
         frameRequested = True,
         m_posted = [Start_generating, Queue_has_space, Queue_has_space, Queue_has_space,
           Queue_has_space, Queue_has_space],
         uploads = [TexComplete 0 10, TexComplete 1 11, TexComplete 2 12],
         console_errors = [], alerts = [],
         dequeued = [\<lparr>slotIdx = 0, imageData = 10\<rparr>, \<lparr>slotIdx = 1, imageData = 11\<rparr>,
           \<lparr>slotIdx = 2, imageData = 12\<rparr>, \<lparr>slotIdx = 0, imageData = 13\<rparr>]\<rparr>,
      worker_read = 6, main_read = 5\<rparr>"

text \<open>Or the fourth frame arrives and eleven animation frames follow: ten bring
  \<^verbatim>\<open>t\<close> from 0.1 to 1.0999999999999999, the eleventh rotates and dequeues.\<close>

definition rotation_events :: "event list" where
  "rotation_events = fill_events @ [Worker_generated 13, Main_receive,
     Animation_frame, Animation_frame, Animation_frame, Animation_frame, Animation_frame,
     Animation_frame, Animation_frame, Animation_frame, Animation_frame, Animation_frame,
     Animation_frame]"

definition after_rotation :: system where
  "after_rotation =
     \<lparr>worker = \<lparr>worker_slotIdx = 1, isInitialized = True, queueSpaceAvailable = 2,
         queueSpaceWaiters = [], initPending = False, generating = 1,
         w_posted = [Ready, Image \<lparr>slotIdx = 0, imageData = 10\<rparr>,
           Image \<lparr>slotIdx = 1, imageData = 11\<rparr>, Image \<lparr>slotIdx = 2, imageData = 12\<rparr>,
           Image \<lparr>slotIdx = 0, imageData = 13\<rparr>]\<rparr>,
      main = \<lparr>isReady = True, imageQueue = [], queueWaiters = [],
         pendingUpload = Some \<lparr>p_slotIdx = 0, pboIdx = 0, rgbData = 13, rowsUploaded = 0\<rparr>,
         t = 3602879701896397 / 36028797018963968, currTexIdx = 1, nextTexIdx = 2,
         frameRequested = True,
         m_posted = [Start_generating, Queue_has_space, Queue_has_space, Queue_has_space,
           Queue_has_space, Queue_has_space],
         uploads = [TexComplete 0 10, TexComplete 1 11, TexComplete 2 12],
         console_errors = [], alerts = [],
         dequeued = [\<lparr>slotIdx = 0, imageData = 10\<rparr>, \<lparr>slotIdx = 1, imageData = 11\<rparr>,
           \<lparr>slotIdx = 2, imageData = 12\<rparr>, \<lparr>slotIdx = 0, imageData = 13\<rparr>]\<rparr>,
      worker_read = 4, main_read = 5\<rparr>"

text \<open>Nine more animation frames upload the fourth frame, at
  \<^verbatim>\<open>t\<close> = 0.1, \<dots>, 0.8999999999999999.\<close>

definition upload_events :: "event list" where
  "upload_events =
     [Animation_frame, Animation_frame, Animation_frame, Animation_frame, Animation_frame,
      Animation_frame, Animation_frame, Animation_frame, Animation_frame]"

definition after_upload :: system where
  "after_upload =
     after_rotation\<lparr>main := (main after_rotation)
       \<lparr>pendingUpload := None, t := 9007199254740991 / 9007199254740992,
        uploads := [TexComplete 0 10, TexComplete 1 11, TexComplete 2 12]
          @ map (chunk_of \<lparr>p_slotIdx = 0, pboIdx = 0, rgbData = 13, rowsUploaded = 0\<rparr>)
              double_chunks\<rparr>\<rparr>"

text \<open>The first \<^verbatim>\<open>generateImage()\<close> throws and the page handles the error message; the
  next one succeeds and the page handles the frame.\<close>

definition error_events :: "event list" where
  "error_events = [Worker_init_ok, Main_receive, Worker_receive,
     Worker_generate_fail ''boom'', Main_receive]"

definition after_error :: system where
  "after_error =
     \<lparr>worker = \<lparr>worker_slotIdx = 0, isInitialized = True, queueSpaceAvailable = 3,
         queueSpaceWaiters = [], initPending = False, generating = 1,
         w_posted = [Ready, Error ''boom'']\<rparr>,
      main = \<lparr>isReady = True, imageQueue = [], queueWaiters = [FillBuffer 0],
         pendingUpload = None, t = 0, currTexIdx = 0, nextTexIdx = 1, frameRequested = False,
         m_posted = [Start_generating], uploads = [],
         console_errors = [Worker_error ''boom''], alerts = [''Error: boom''],
         dequeued = []\<rparr>,
      worker_read = 1, main_read = 2\<rparr>"

definition after_error_frame :: system where
  "after_error_frame =
     \<lparr>worker = \<lparr>worker_slotIdx = 1, isInitialized = True, queueSpaceAvailable = 2,
         queueSpaceWaiters = [], initPending = False, generating = 1,
         w_posted = [Ready, Error ''boom'', Image \<lparr>slotIdx = 0, imageData = 10\<rparr>]\<rparr>,
      main = \<lparr>isReady = True, imageQueue = [], queueWaiters = [FillBuffer 1],
         pendingUpload = None, t = 0, currTexIdx = 0, nextTexIdx = 1, frameRequested = False,
         m_posted = [Start_generating, Queue_has_space], uploads = [TexComplete 0 10],
         console_errors = [Worker_error ''boom''], alerts = [''Error: boom''],
         dequeued = [\<lparr>slotIdx = 0, imageData = 10\<rparr>]\<rparr>,
      worker_read = 1, main_read = 3\<rparr>"

section \<open>The double-precision operations\<close>

lemma normalize53_numeral:
  "normalize53 (numeral k) m e =
     (if 2 ^ 53 \<le> m then normalize53 (pred_numeral k) (m / 2) (e + 1)
      else if m < 2 ^ 52 then normalize53 (pred_numeral k) (2 * m) (e - 1)
      else (m, e))"
  by (simp add: numeral_eq_Suc)

lemma normalize53_nonneg: "0 \<le> m \<Longrightarrow> 0 \<le> fst (normalize53 n m e)"
  by (induction n arbitrary: m e) simp_all

lemma round_even_nonneg: "0 \<le> m \<Longrightarrow> 0 \<le> round_even m"
  by (simp add: round_even_def Let_def)

lemma scale2_nonneg: "0 \<le> x \<Longrightarrow> 0 \<le> scale2 e x"
  by (simp add: scale2_def)

text \<open>Rounding keeps the sign.\<close>

lemma round53_nonpos:
  assumes "x \<le> 0"
  shows "round53 x \<le> 0"
proof (cases "x = 0")
  case True
  then show ?thesis by (simp add: round53_def)
next
  case False
  obtain m e where n: "normalize53 1100 \<bar>x\<bar> 0 = (m, e)"
    by (cases "normalize53 1100 \<bar>x\<bar> 0")
  have "0 \<le> fst (normalize53 1100 \<bar>x\<bar> 0)" by (rule normalize53_nonneg) simp
  then have "0 \<le> m" by (simp add: n)
  then have "0 \<le> scale2 e (of_int (round_even m))"
    by (intro scale2_nonneg) (simp add: round_even_nonneg)
  moreover have "sgn x = - 1" using assms False by simp
  ultimately show ?thesis using False by (simp add: round53_def n)
qed

text \<open>A positive number within reach of the exponent search rounds to a positive
  number.\<close>

lemma normalize53_ge_1:
  "0 < m \<Longrightarrow> 1 \<le> m * 2 ^ n \<Longrightarrow> 1 \<le> fst (normalize53 n m e)"
proof (induction n arbitrary: m e)
  case 0
  then show ?case by simp
next
  case (Suc n)
  show ?case
  proof (cases "2 ^ 53 \<le> m")
    case True
    then have "1 \<le> m / 2" by simp
    moreover have "(1::real) \<le> 2 ^ n" by simp
    ultimately have "1 * 1 \<le> (m / 2) * 2 ^ n" by (intro mult_mono) simp_all
    then have "1 \<le> fst (normalize53 n (m / 2) (e + 1))"
      using Suc.prems(1) by (intro Suc.IH) simp_all
    then show ?thesis using True by simp
  next
    case False
    show ?thesis
    proof (cases "m < 2 ^ 52")
      case True
      have "1 \<le> fst (normalize53 n (2 * m) (e - 1))"
        using Suc.prems by (intro Suc.IH) (simp_all add: mult.assoc mult.left_commute)
      then show ?thesis using True False by simp
    next
      case False
      then have "1 \<le> m" by simp
      then show ?thesis using False \<open>\<not> 2 ^ 53 \<le> m\<close> by simp
    qed
  qed
qed

lemma round_even_ge_1: "1 \<le> m \<Longrightarrow> 1 \<le> round_even m"
proof -
  assume "1 \<le> m"
  then have "1 \<le> \<lfloor>m\<rfloor>" by simp
  then show ?thesis by (simp add: round_even_def Let_def)
qed

lemma scale2_pos: "0 < x \<Longrightarrow> 0 < scale2 e x"
  by (simp add: scale2_def)

lemma round53_pos:
  assumes "0 < x" and "1 \<le> x * 2 ^ 1100"
  shows "0 < round53 x"
proof -
  obtain m e where n: "normalize53 1100 x 0 = (m, e)"
    by (cases "normalize53 1100 x 0")
  have "1 \<le> fst (normalize53 1100 x 0)"
    using assms by (intro normalize53_ge_1) simp_all
  then have "1 \<le> m" by (simp add: n)
  then have "1 \<le> round_even m" by (rule round_even_ge_1)
  then have "0 < scale2 e (of_int (round_even m))"
    by (intro scale2_pos) simp
  then show ?thesis using assms(1) by (simp add: round53_def n)
qed

lemmas double_defs = round53_def round_even_def scale2_def double_add_def double_sub_def
  double_div_def normalize53_numeral

lemma app_config_simps:
  "BUFFER_SIZE app_config = 3" "g_tex_H app_config = 512" "steps app_config = 10"
  "MAX_QUEUE_SIZE app_config = 3"
  "fadd app_config = double_add" "fsub app_config = double_sub" "fdiv app_config = double_div"
  by (simp_all add: app_config_def MAX_QUEUE_SIZE_def)

text \<open>\<^verbatim>\<open>1.0 / 10\<close> is the double nearest to 0.1.\<close>

lemma dt_app_config: "dt app_config = 3602879701896397 / 36028797018963968"
  by (simp add: dt_def app_config_simps double_defs Let_def)

text \<open>
  The clock of the source, \<^verbatim>\<open>t += dt\<close> from 0 with \<^verbatim>\<open>dt = 1.0 / 10\<close>: 0.1, 0.2,
  0.30000000000000004, 0.4, 0.5, 0.6, 0.7, 0.7999999999999999, 0.8999999999999999,
  0.9999999999999999, 1.0999999999999999; and \<^verbatim>\<open>Math.floor((1.0 - t) / dt)\<close> at the first
  nine of them: 9, 8, 6, 5, 5, 4, 3, 2, 1.
\<close>

lemma double_clock:
  "double_add 0 (3602879701896397 / 36028797018963968) = 3602879701896397 / 36028797018963968"
  "double_add (3602879701896397 / 36028797018963968) (3602879701896397 / 36028797018963968)
     = 3602879701896397 / 18014398509481984"
  "double_add (3602879701896397 / 18014398509481984) (3602879701896397 / 36028797018963968)
     = 1351079888211149 / 4503599627370496"
  "double_add (1351079888211149 / 4503599627370496) (3602879701896397 / 36028797018963968)
     = 3602879701896397 / 9007199254740992"
  "double_add (3602879701896397 / 9007199254740992) (3602879701896397 / 36028797018963968)
     = 1 / 2"
  "double_add (1 / 2) (3602879701896397 / 36028797018963968)
     = 5404319552844595 / 9007199254740992"
  "double_add (5404319552844595 / 9007199254740992) (3602879701896397 / 36028797018963968)
     = 3152519739159347 / 4503599627370496"
  "double_add (3152519739159347 / 4503599627370496) (3602879701896397 / 36028797018963968)
     = 7205759403792793 / 9007199254740992"
  "double_add (7205759403792793 / 9007199254740992) (3602879701896397 / 36028797018963968)
     = 2026619832316723 / 2251799813685248"
  "double_add (2026619832316723 / 2251799813685248) (3602879701896397 / 36028797018963968)
     = 9007199254740991 / 9007199254740992"
  "double_add (9007199254740991 / 9007199254740992) (3602879701896397 / 36028797018963968)
     = 4953959590107545 / 4503599627370496"
  by (simp_all add: double_defs Let_def)

lemma double_framesLeft:
  "framesLeft app_config (3602879701896397 / 36028797018963968) = 9"
  "framesLeft app_config (3602879701896397 / 18014398509481984) = 8"
  "framesLeft app_config (1351079888211149 / 4503599627370496) = 6"
  "framesLeft app_config (3602879701896397 / 9007199254740992) = 5"
  "framesLeft app_config (1 / 2) = 5"
  "framesLeft app_config (5404319552844595 / 9007199254740992) = 4"
  "framesLeft app_config (3152519739159347 / 4503599627370496) = 3"
  "framesLeft app_config (7205759403792793 / 9007199254740992) = 2"
  "framesLeft app_config (2026619832316723 / 2251799813685248) = 1"
  by (simp_all add: framesLeft_def dt_app_config app_config_simps double_defs Let_def)

lemma ieee_signs_app_config: "ieee_signs app_config"
  unfolding ieee_signs_def
proof (intro conjI allI impI)
  show "0 < dt app_config" by (simp add: dt_app_config)
next
  fix a :: real
  assume "1 < a"
  then show "fsub app_config 1 a \<le> 0"
    by (simp add: app_config_simps double_sub_def round53_nonpos)
next
  fix x y :: real
  assume "x \<le> 0" and "0 < y"
  then have "x / y \<le> 0" by (simp add: divide_nonpos_pos)
  then show "fdiv app_config x y \<le> 0"
    by (simp only: app_config_simps double_div_def round53_nonpos)
qed

text \<open>
  The double-precision operations have the three sign properties for every number of
  steps from 1 up to \<^verbatim>\<open>2 ^ 1000\<close>, where \<^verbatim>\<open>1.0 / steps\<close> is a normal double.
\<close>

lemma ieee_signs_double:
  assumes "0 < steps cfg" and "steps cfg \<le> 2 ^ 1000"
    and "fsub cfg = double_sub" and "fdiv cfg = double_div"
  shows "ieee_signs cfg"
  unfolding ieee_signs_def
proof (intro conjI allI impI)
  let ?s = "real (steps cfg)"
  have s: "0 < ?s" using assms(1) by simp
  have "?s \<le> 2 ^ 1000" using assms(2) by (metis of_nat_le_iff of_nat_numeral of_nat_power)
  also have "\<dots> \<le> (2::real) ^ 1100" by (intro power_increasing) simp_all
  finally have "1 \<le> 2 ^ 1100 / ?s" using s by (simp add: le_divide_eq)
  then have "0 < round53 (1 / ?s)" using s by (intro round53_pos) simp_all
  then show "0 < dt cfg" by (simp add: dt_def assms(4) double_div_def)
next
  fix a :: real
  assume "1 < a"
  then show "fsub cfg 1 a \<le> 0"
    by (simp add: assms(3) double_sub_def round53_nonpos)
next
  fix x y :: real
  assume "x \<le> 0" and "0 < y"
  then have "x / y \<le> 0" by (simp add: divide_nonpos_pos)
  then show "fdiv cfg x y \<le> 0"
    by (simp only: assms(4) double_div_def round53_nonpos)
qed

section \<open>The progressive upload\<close>

lemma framesLeft_pos: "1 \<le> framesLeft cfg tv"
  by (simp add: framesLeft_def)

text \<open>Once \<^verbatim>\<open>t\<close> has passed 1, a single frame is left.\<close>

lemma framesLeft_late:
  assumes "ieee_signs cfg" and "1 < tv"
  shows "framesLeft cfg tv = 1"
proof -
  have "fsub cfg 1 tv \<le> 0" and "0 < dt cfg"
    using assms by (simp_all add: ieee_signs_def)
  then have "fdiv cfg (fsub cfg 1 tv) (dt cfg) \<le> 0"
    using assms(1) by (simp add: ieee_signs_def)
  then have "\<lfloor>fdiv cfg (fsub cfg 1 tv) (dt cfg)\<rfloor> \<le> 0"
    by (simp add: floor_le_iff)
  then show ?thesis by (simp add: framesLeft_def)
qed

lemma rowsToUpload_ge1:
  assumes "r < g_tex_H cfg"
  shows "1 \<le> rowsToUpload cfg tv r"
proof -
  have "0 \<le> (g_tex_H cfg - r) div framesLeft cfg tv"
    using assms framesLeft_pos [of cfg tv] by (simp add: pos_imp_zdiv_nonneg_iff)
  then show ?thesis using assms
    by (simp add: rowsToUpload_def Let_def)
qed

lemma rowsToUpload_le: "rowsToUpload cfg tv r \<le> g_tex_H cfg - r"
  by (simp add: rowsToUpload_def Let_def)

lemma rowsToUpload_late:
  "ieee_signs cfg \<Longrightarrow> 1 < tv \<Longrightarrow> rowsToUpload cfg tv r = g_tex_H cfg - r"
  by (simp add: rowsToUpload_def framesLeft_late)

lemma ppu_None [simp]: "pendingUpload ms = None \<Longrightarrow> processProgressiveUpload cfg ms = ms"
  by (simp add: processProgressiveUpload_def)

lemma ppu_Some:
  "pendingUpload ms = Some p \<Longrightarrow>
   processProgressiveUpload cfg ms =
     ms\<lparr>uploads := uploads ms @
            [chunk_of p (rowsUploaded p, rowsToUpload cfg (t ms) (rowsUploaded p))],
        pendingUpload :=
          (if g_tex_H cfg \<le> rowsUploaded p + rowsToUpload cfg (t ms) (rowsUploaded p) then None
           else Some (p\<lparr>rowsUploaded :=
                         rowsUploaded p + rowsToUpload cfg (t ms) (rowsUploaded p)\<rparr>))\<rparr>"
  by (simp add: processProgressiveUpload_def Let_def chunk_of_def)

lemma upload_advances_None [simp]:
  "pendingUpload ms = None \<Longrightarrow> pendingUpload (upload_advances cfg tvs ms) = None"
  by (induction tvs arbitrary: ms) simp_all

lemma upload_advances_clears:
  "pendingUpload ms = Some p \<Longrightarrow> rowsUploaded p < g_tex_H cfg \<Longrightarrow>
   nat (g_tex_H cfg - rowsUploaded p) \<le> length tvs \<Longrightarrow>
   pendingUpload (upload_advances cfg tvs ms) = None"
proof (induction tvs arbitrary: ms p)
  case Nil
  then show ?case by simp
next
  case (Cons tv tvs)
  let ?ms = "ms\<lparr>t := tv\<rparr>"
  let ?n = "rowsToUpload cfg tv (rowsUploaded p)"
  have p: "pendingUpload ?ms = Some p" using Cons.prems by simp
  show ?case
  proof (cases "g_tex_H cfg \<le> rowsUploaded p + ?n")
    case True
    then show ?thesis by (simp add: ppu_Some [OF p])
  next
    case False
    have "nat (g_tex_H cfg - (rowsUploaded p + ?n)) \<le> length tvs"
      using Cons.prems(3) rowsToUpload_ge1 [OF Cons.prems(2), of tv] by simp
    with False show ?thesis
      by (simp add: ppu_Some [OF p] Cons.IH)
  qed
qed

text \<open>
  Claim C10.  An invocation of \<^verbatim>\<open>processProgressiveUpload\<close> on a pending upload with
  \<^verbatim>\<open>rowsUploaded < g_tex_H\<close> transfers one chunk of \<open>n\<close> rows starting at row
  \<^verbatim>\<open>rowsUploaded\<close>, with \<open>1 \<le> n \<le> g_tex_H - rowsUploaded\<close>; the counter grows by
  \<open>n\<close>, so it increases strictly and never exceeds \<^verbatim>\<open>g_tex_H\<close>, and the upload is
  cleared exactly when the counter reaches \<^verbatim>\<open>g_tex_H\<close>.  After \<^verbatim>\<open>g_tex_H\<close>
  invocations, whatever the values of \<^verbatim>\<open>t\<close>, the upload has been cleared.  With no
  pending upload the invocation changes nothing.
\<close>

theorem upload_advance_progress:
  assumes "0 < steps cfg" and "pendingUpload ms = Some p"
    and "0 \<le> rowsUploaded p" and "rowsUploaded p < g_tex_H cfg"
  shows "(\<exists>n. 1 \<le> n \<and> n \<le> g_tex_H cfg - rowsUploaded p
            \<and> uploads (processProgressiveUpload cfg ms) =
                uploads ms @ [chunk_of p (rowsUploaded p, n)]
            \<and> pendingUpload (processProgressiveUpload cfg ms) =
                (if rowsUploaded p + n = g_tex_H cfg then None
                 else Some (p\<lparr>rowsUploaded := rowsUploaded p + n\<rparr>)))
       \<and> (\<forall>tvs. nat (g_tex_H cfg) \<le> length tvs \<longrightarrow>
             pendingUpload (upload_advances cfg tvs ms) = None)
       \<and> (\<forall>ms0. pendingUpload ms0 = None \<longrightarrow> processProgressiveUpload cfg ms0 = ms0)"
proof (intro conjI allI impI)
  let ?n = "rowsToUpload cfg (t ms) (rowsUploaded p)"
  have "1 \<le> ?n" "?n \<le> g_tex_H cfg - rowsUploaded p"
    using rowsToUpload_ge1 [OF assms(4)] rowsToUpload_le by simp_all
  then show "\<exists>n. 1 \<le> n \<and> n \<le> g_tex_H cfg - rowsUploaded p
           \<and> uploads (processProgressiveUpload cfg ms) =
               uploads ms @ [chunk_of p (rowsUploaded p, n)]
           \<and> pendingUpload (processProgressiveUpload cfg ms) =
               (if rowsUploaded p + n = g_tex_H cfg then None
                else Some (p\<lparr>rowsUploaded := rowsUploaded p + n\<rparr>))"
    by (intro exI [of _ ?n]) (auto simp: ppu_Some [OF assms(2)])
next
  fix tvs :: "real list"
  assume "nat (g_tex_H cfg) \<le> length tvs"
  then show "pendingUpload (upload_advances cfg tvs ms) = None"
    using assms(3) by (intro upload_advances_clears [OF assms(2) assms(4)]) simp
next
  fix ms0 :: main_state
  assume "pendingUpload ms0 = None"
  then show "processProgressiveUpload cfg ms0 = ms0" by simp
qed

theorem upload_advance_progress_witness:
  "0 < steps app_config
   \<and> pendingUpload upload_started = Some started_pending
   \<and> 0 \<le> rowsUploaded started_pending
   \<and> rowsUploaded started_pending < g_tex_H app_config
   \<and> (\<exists>n. 1 \<le> n \<and> n \<le> g_tex_H app_config - rowsUploaded started_pending
          \<and> uploads (processProgressiveUpload app_config upload_started) =
              uploads upload_started @ [chunk_of started_pending (rowsUploaded started_pending, n)]
          \<and> pendingUpload (processProgressiveUpload app_config upload_started) =
              (if rowsUploaded started_pending + n = g_tex_H app_config then None
               else Some (started_pending\<lparr>rowsUploaded := rowsUploaded started_pending + n\<rparr>)))
   \<and> pendingUpload (upload_advances app_config (replicate 512 (1 / 2)) upload_started) = None
   \<and> processProgressiveUpload app_config main_init = main_init"
proof -
  have h5: "nat (g_tex_H app_config) \<le> length (replicate 512 (1 / 2 :: real))"
    by (simp add: app_config_def)
  have h6: "pendingUpload main_init = None" by (simp add: main_init_def)
  have h1: "0 < steps app_config" by (simp add: app_config_def)
  have h2: "pendingUpload upload_started = Some started_pending"
    by (simp add: upload_started_def main_init_def)
  have h3: "0 \<le> rowsUploaded started_pending" by (simp add: started_pending_def)
  have h4: "rowsUploaded started_pending < g_tex_H app_config"
    by (simp add: started_pending_def app_config_def)
  show ?thesis
    using upload_advance_progress [OF h1 h2 h3 h4] h1 h2 h3 h4 h5 h6 by blast
qed

lemma animate_no_rotation:
  assumes "pendingUpload ms = Some p" and "t ms \<le> 1"
  shows "animate cfg ms =
     (processProgressiveUpload cfg ms)\<lparr>t := fadd cfg (t ms) (dt cfg), frameRequested := True\<rparr>"
  using assms
  by (simp add: animate_def Let_def animate_rotate_def animate_render_def ppu_Some [of _ p])

lemma chunk_rows_Cons:
  "1 \<le> n \<Longrightarrow> r + n \<le> h \<Longrightarrow> chunk_rows (r, n) @ [r + n .. h - 1] = [r .. h - 1]"
  using upto_split2 [of r "r + n - 1" "h - 1"] by (simp add: chunk_rows_def)

lemma chunk_rows_last: "chunk_rows (r, h - r) = [r .. h - 1]"
  by (simp add: chunk_rows_def)

text \<open>
  From any state with an unfinished upload, the loop of \<^verbatim>\<open>animate\<close> reaches, through
  ticks that all start with \<^verbatim>\<open>t \<le> 1\<close>, a tick whose upload step finishes it, and the
  chunks transferred on the way cover the remaining rows one after the other.
\<close>

lemma upload_run:
  assumes "ieee_signs cfg" and "pendingUpload ms = Some p"
    and "rowsUploaded p < g_tex_H cfg"
  shows "\<exists>n cs. (\<forall>k<n. t ((animate cfg ^^ k) ms) \<le> 1)
      \<and> pendingUpload (processProgressiveUpload cfg ((animate cfg ^^ n) ms)) = None
      \<and> uploads (processProgressiveUpload cfg ((animate cfg ^^ n) ms)) =
          uploads ms @ map (chunk_of p) cs
      \<and> concat (map chunk_rows cs) = [rowsUploaded p .. g_tex_H cfg - 1]
      \<and> sum_list (map snd cs) = g_tex_H cfg - rowsUploaded p"
  using assms(2,3)
proof (induction "nat (g_tex_H cfg - rowsUploaded p)" arbitrary: ms p rule: less_induct)
  case less
  let ?r = "rowsUploaded p"
  let ?n = "rowsToUpload cfg (t ms) ?r"
  note p = less.prems(1)
  have n1: "1 \<le> ?n" and n2: "?n \<le> g_tex_H cfg - ?r"
    using rowsToUpload_ge1 [OF less.prems(2)] rowsToUpload_le by simp_all
  show ?case
  proof (cases "g_tex_H cfg \<le> ?r + ?n")
    case True
    then have eq: "?n = g_tex_H cfg - ?r" using n2 by simp
    have "pendingUpload (processProgressiveUpload cfg ms) = None"
      using True by (simp add: ppu_Some [OF p])
    moreover have "uploads (processProgressiveUpload cfg ms) =
        uploads ms @ map (chunk_of p) [(?r, ?n)]"
      by (simp add: ppu_Some [OF p])
    moreover have "concat (map chunk_rows [(?r, ?n)]) = [?r .. g_tex_H cfg - 1]"
      by (simp add: eq chunk_rows_last)
    moreover have "sum_list (map snd [(?r, ?n)]) = g_tex_H cfg - ?r"
      by (simp add: eq)
    ultimately show ?thesis
      by (intro exI [of _ 0] exI [of _ "[(?r, ?n)]"]) simp
  next
    case False
    then have tle: "t ms \<le> 1"
      using rowsToUpload_late [OF assms(1), of "t ms" ?r] by (cases "1 < t ms") simp_all
    let ?p1 = "p\<lparr>rowsUploaded := ?r + ?n\<rparr>"
    let ?ms1 = "animate cfg ms"
    have ms1: "?ms1 =
        (processProgressiveUpload cfg ms)\<lparr>t := fadd cfg (t ms) (dt cfg), frameRequested := True\<rparr>"
      by (rule animate_no_rotation [OF p tle])
    have p1: "pendingUpload ?ms1 = Some ?p1"
      using False by (simp add: ms1 ppu_Some [OF p])
    have up1: "uploads ?ms1 = uploads ms @ [chunk_of p (?r, ?n)]"
      by (simp add: ms1 ppu_Some [OF p])
    have lt1: "rowsUploaded ?p1 < g_tex_H cfg" using False by simp
    have "nat (g_tex_H cfg - rowsUploaded ?p1) < nat (g_tex_H cfg - ?r)"
      using n1 less.prems(2) by simp
    from less.hyps [OF this p1 lt1]
    obtain n cs where
      a: "\<forall>k<n. t ((animate cfg ^^ k) ?ms1) \<le> 1"
      and b: "pendingUpload (processProgressiveUpload cfg ((animate cfg ^^ n) ?ms1)) = None"
      and c: "uploads (processProgressiveUpload cfg ((animate cfg ^^ n) ?ms1)) =
                uploads ?ms1 @ map (chunk_of ?p1) cs"
      and d: "concat (map chunk_rows cs) = [rowsUploaded ?p1 .. g_tex_H cfg - 1]"
      and e: "sum_list (map snd cs) = g_tex_H cfg - rowsUploaded ?p1"
      by blast
    have a': "\<forall>k<Suc n. t ((animate cfg ^^ k) ms) \<le> 1"
    proof (intro allI impI)
      fix k assume "k < Suc n"
      then show "t ((animate cfg ^^ k) ms) \<le> 1"
        using a tle by (cases k) (simp_all add: funpow_swap1)
    qed
    have same: "chunk_of ?p1 = chunk_of p"
      by (rule ext) (simp add: chunk_of_def)
    have c': "uploads (processProgressiveUpload cfg ((animate cfg ^^ Suc n) ms)) =
        uploads ms @ map (chunk_of p) ((?r, ?n) # cs)"
      using c by (simp add: funpow_swap1 up1 same)
    have d': "concat (map chunk_rows ((?r, ?n) # cs)) = [?r .. g_tex_H cfg - 1]"
      using d chunk_rows_Cons [OF n1, of ?r "g_tex_H cfg"] n2 by simp
    have e': "sum_list (map snd ((?r, ?n) # cs)) = g_tex_H cfg - ?r"
      using e by simp
    have b': "pendingUpload (processProgressiveUpload cfg ((animate cfg ^^ Suc n) ms)) = None"
      using b by (simp add: funpow_swap1)
    show ?thesis
      using a' b' c' d' e' by blast
  qed
qed

text \<open>
  Claim C3.  Let \<^verbatim>\<open>g_tex_H \<ge> 1\<close> and \<^verbatim>\<open>steps \<ge> 1\<close>, with \<^verbatim>\<open>dt = 1.0 / steps\<close>
  computed and the clock advanced by operations that keep signs as double operations do,
  whatever they round to.  Let an upload start with \<^verbatim>\<open>rowsUploaded = 0\<close>.  Running
  \<^verbatim>\<open>animate\<close> tick after tick, there is a tick \<open>n\<close> whose upload step clears the upload;
  every tick before it started with \<^verbatim>\<open>t \<le> 1\<close>, so the upload completes at or before
  the first tick that sees \<^verbatim>\<open>t > 1\<close>.  The chunks transferred up to there, each a row
  offset and a row count, list the rows \<open>0, \<dots>, g_tex_H - 1\<close> exactly once and in order
  (no gap, no overlap), and their row counts sum to \<^verbatim>\<open>g_tex_H\<close>.
\<close>

theorem progressive_upload_covers:
  assumes "0 < steps cfg" and "ieee_signs cfg" and "1 \<le> g_tex_H cfg"
    and "pendingUpload ms = Some p" and "rowsUploaded p = 0"
  shows "\<exists>n cs. (\<forall>k<n. t ((animate cfg ^^ k) ms) \<le> 1)
      \<and> pendingUpload (processProgressiveUpload cfg ((animate cfg ^^ n) ms)) = None
      \<and> uploads (processProgressiveUpload cfg ((animate cfg ^^ n) ms)) =
          uploads ms @ map (chunk_of p) cs
      \<and> concat (map chunk_rows cs) = [0 .. g_tex_H cfg - 1]
      \<and> sum_list (map snd cs) = g_tex_H cfg"
proof -
  have "rowsUploaded p < g_tex_H cfg" using assms(3,5) by simp
  from upload_run [OF assms(2) assms(4) this] show ?thesis
    by (simp add: assms(5))
qed

text \<open>
  With the source's constants and double arithmetic, from \<^verbatim>\<open>t = 0.1\<close>: the clock
  passes 0.30000000000000004 and 0.7999999999999999, and the upload is cleared by the
  ninth upload step, after the chunks 57, 57, 67, 67, 53, 53, 53, 53, 52.
\<close>

lemma funpow_numeral_unfold: "(f ^^ numeral k) x = (f ^^ pred_numeral k) (f x)"
  by (simp add: numeral_eq_Suc funpow_swap1)

lemma double_upload_run:
  "uploads (processProgressiveUpload app_config ((animate app_config ^^ 8) upload_started)) =
     map (chunk_of started_pending) double_chunks"
  "pendingUpload (processProgressiveUpload app_config ((animate app_config ^^ 8) upload_started))
     = None"
  "t ((animate app_config ^^ 8) upload_started) = 2026619832316723 / 2251799813685248"
  by (simp_all add: funpow_numeral_unfold upload_started_def started_pending_def main_init_def
      double_chunks_def chunk_of_def animate_def animate_rotate_def animate_render_def
      processProgressiveUpload_def rowsToUpload_def double_framesLeft double_clock dt_app_config
      app_config_simps Let_def)

theorem progressive_upload_covers_witness:
  "0 < steps app_config \<and> ieee_signs app_config \<and> 1 \<le> g_tex_H app_config
   \<and> pendingUpload upload_started = Some started_pending
   \<and> rowsUploaded started_pending = 0
   \<and> (\<exists>n cs. (\<forall>k<n. t ((animate app_config ^^ k) upload_started) \<le> 1)
      \<and> pendingUpload (processProgressiveUpload app_config
            ((animate app_config ^^ n) upload_started)) = None
      \<and> uploads (processProgressiveUpload app_config
            ((animate app_config ^^ n) upload_started)) =
          uploads upload_started @ map (chunk_of started_pending) cs
      \<and> concat (map chunk_rows cs) = [0 .. g_tex_H app_config - 1]
      \<and> sum_list (map snd cs) = g_tex_H app_config)
   \<and> uploads (processProgressiveUpload app_config ((animate app_config ^^ 8) upload_started)) =
        map (chunk_of started_pending) double_chunks
   \<and> sum_list (map snd double_chunks) = g_tex_H app_config"
proof -
  have h1: "0 < steps app_config" by (simp add: app_config_simps)
  have h2: "1 \<le> g_tex_H app_config" by (simp add: app_config_simps)
  have h3: "pendingUpload upload_started = Some started_pending"
    by (simp add: upload_started_def main_init_def)
  have h4: "rowsUploaded started_pending = 0" by (simp add: started_pending_def)
  have h5: "sum_list (map snd double_chunks) = g_tex_H app_config"
    by (simp add: double_chunks_def app_config_simps)
  show ?thesis
    using progressive_upload_covers [OF h1 ieee_signs_app_config h2 h3 h4]
      h1 ieee_signs_app_config h2 h3 h4 h5 double_upload_run(1)
    by blast
qed

section \<open>The consumer, phase by phase\<close>

declare fillBuffer.simps [simp del]

declare main_onmessage.simps [simp del]

lemma fillBuffer_wait:
  "i < BUFFER_SIZE cfg \<Longrightarrow> imageQueue ms = [] \<Longrightarrow>
   fillBuffer cfg i ms = ms\<lparr>queueWaiters := queueWaiters ms @ [FillBuffer i]\<rparr>"
  by (subst fillBuffer.simps) (simp add: queueGet_def)

lemma fillBuffer_done: "\<not> i < BUFFER_SIZE cfg \<Longrightarrow> fillBuffer cfg i ms = animate cfg ms"
  by (subst fillBuffer.simps) simp

lemma notifiedI1: "m_posted m' = m_posted m @ [Queue_has_space] \<Longrightarrow> notified m m'"
  unfolding notified_def by (rule exI [of _ 1]) simp

lemma notifiedI0: "m_posted m' = m_posted m \<Longrightarrow> notified m m'"
  unfolding notified_def by (rule exI [of _ 0]) simp

lemma on_ready:
  assumes "idle m" and "0 < BUFFER_SIZE cfg"
  shows "filling cfg (main_onmessage cfg Ready m)"
    and "dequeued (main_onmessage cfg Ready m) = []"
    and "imageQueue (main_onmessage cfg Ready m) = []"
    and "m_posted (main_onmessage cfg Ready m) = [Start_generating]"
  using assms
  by (simp_all add: main_onmessage.simps idle_def filling_def fillBuffer_wait started_msg_def)

lemma on_error:
  "phase cfg (main_onmessage cfg (Error d) m) = phase cfg m"
  "dequeued (main_onmessage cfg (Error d) m) = dequeued m"
  "imageQueue (main_onmessage cfg (Error d) m) = imageQueue m"
  "m_posted (main_onmessage cfg (Error d) m) = m_posted m"
  "isReady (main_onmessage cfg (Error d) m) = isReady m"
  by (simp_all add: main_onmessage.simps phase_def idle_def filling_def running_def blocked_def
      started_msg_def)

lemma on_ready_index:
  "idle m \<Longrightarrow> 0 < BUFFER_SIZE cfg \<Longrightarrow> index_inv cfg m \<Longrightarrow>
   index_inv cfg (main_onmessage cfg Ready m)"
  by (simp add: main_onmessage.simps idle_def index_inv_def fillBuffer_wait)

lemma on_error_index:
  "index_inv cfg (main_onmessage cfg (Error d) m) = index_inv cfg m"
  by (simp add: main_onmessage.simps index_inv_def)

lemma notify_space_fields [simp]:
  "isReady (notify_space cfg m) = isReady m"
  "imageQueue (notify_space cfg m) = imageQueue m"
  "queueWaiters (notify_space cfg m) = queueWaiters m"
  "pendingUpload (notify_space cfg m) = pendingUpload m"
  "t (notify_space cfg m) = t m"
  "currTexIdx (notify_space cfg m) = currTexIdx m"
  "nextTexIdx (notify_space cfg m) = nextTexIdx m"
  "frameRequested (notify_space cfg m) = frameRequested m"
  "uploads (notify_space cfg m) = uploads m"
  "console_errors (notify_space cfg m) = console_errors m"
  "alerts (notify_space cfg m) = alerts m"
  "dequeued (notify_space cfg m) = dequeued m"
  by (simp_all add: notify_space_def)

lemma notified_notify_space: "m_posted m1 = m_posted m \<Longrightarrow> notified m (notify_space cfg m1)"
  by (auto simp: notify_space_def intro: notifiedI1 notifiedI0)

lemma started_msg_notified: "started_msg m \<Longrightarrow> notified m m' \<Longrightarrow> started_msg m'"
  by (auto simp: started_msg_def notified_def nth_append)

lemma image_running_eq:
  "queueWaiters m = [] \<Longrightarrow>
   main_onmessage cfg (Image f) m = notify_space cfg (m\<lparr>imageQueue := imageQueue m @ [f]\<rparr>)"
  by (simp add: main_onmessage.simps queuePut_def Let_def)

lemma image_blocked_eq:
  "queueWaiters m = [Animate] \<Longrightarrow> imageQueue m = [] \<Longrightarrow>
   main_onmessage cfg (Image f) m =
     animate_resume cfg f (notify_space cfg (m\<lparr>queueWaiters := [], imageQueue := []\<rparr>))"
  by (simp add: main_onmessage.simps queuePut_def Let_def)

lemma notified_cong: "m_posted m2 = m_posted m1 \<Longrightarrow> notified m m1 \<Longrightarrow> notified m m2"
  by (simp add: notified_def)

lemma animate_resume_fields [simp]:
  "isReady (animate_resume cfg f m) = isReady m"
  "imageQueue (animate_resume cfg f m) = imageQueue m"
  "queueWaiters (animate_resume cfg f m) = queueWaiters m"
  "currTexIdx (animate_resume cfg f m) = currTexIdx m"
  "nextTexIdx (animate_resume cfg f m) = nextTexIdx m"
  "frameRequested (animate_resume cfg f m) = True"
  "m_posted (animate_resume cfg f m) = m_posted m"
  "console_errors (animate_resume cfg f m) = console_errors m"
  "dequeued (animate_resume cfg f m) = dequeued m @ [f]"
  by (simp_all add: animate_resume_def animate_render_def)

lemma on_image_running:
  assumes "running cfg m"
  shows "running cfg (main_onmessage cfg (Image f) m)"
    and "dequeued (main_onmessage cfg (Image f) m) @ imageQueue (main_onmessage cfg (Image f) m)
           = dequeued m @ imageQueue m @ [f]"
    and "notified m (main_onmessage cfg (Image f) m)"
    and "index_inv cfg m \<Longrightarrow> index_inv cfg (main_onmessage cfg (Image f) m)"
proof -
  have w: "queueWaiters m = []" using assms by (simp add: running_def)
  note eq = image_running_eq [OF w]
  show n: "notified m (main_onmessage cfg (Image f) m)"
    by (simp add: eq notified_notify_space)
  show "running cfg (main_onmessage cfg (Image f) m)"
    using assms started_msg_notified [OF _ n] by (simp add: running_def) (simp add: eq)
  show "dequeued (main_onmessage cfg (Image f) m) @ imageQueue (main_onmessage cfg (Image f) m)
           = dequeued m @ imageQueue m @ [f]"
    by (simp add: eq)
  show "index_inv cfg m \<Longrightarrow> index_inv cfg (main_onmessage cfg (Image f) m)"
    using w by (simp add: eq index_inv_def)
qed

lemma on_image_blocked:
  assumes "blocked cfg m"
  shows "running cfg (main_onmessage cfg (Image f) m)"
    and "dequeued (main_onmessage cfg (Image f) m) @ imageQueue (main_onmessage cfg (Image f) m)
           = dequeued m @ imageQueue m @ [f]"
    and "notified m (main_onmessage cfg (Image f) m)"
    and "index_inv cfg m \<Longrightarrow> index_inv cfg (main_onmessage cfg (Image f) m)"
proof -
  have w: "queueWaiters m = [Animate]" and q: "imageQueue m = []"
    using assms by (simp_all add: blocked_def)
  note eq = image_blocked_eq [OF w q]
  have "notified m (notify_space cfg (m\<lparr>queueWaiters := [], imageQueue := []\<rparr>))"
    by (rule notified_notify_space) simp
  then show n: "notified m (main_onmessage cfg (Image f) m)"
    by (simp add: eq notified_def)
  show "running cfg (main_onmessage cfg (Image f) m)"
    using assms started_msg_notified [OF _ n] by (simp add: running_def blocked_def) (simp add: eq)
  show "dequeued (main_onmessage cfg (Image f) m) @ imageQueue (main_onmessage cfg (Image f) m)
           = dequeued m @ imageQueue m @ [f]"
    by (simp add: eq q)
  show "index_inv cfg m \<Longrightarrow> index_inv cfg (main_onmessage cfg (Image f) m)"
    using w assms by (simp add: eq index_inv_def blocked_def)
qed

lemma Suc_mod_self: "2 \<le> (n::nat) \<Longrightarrow> Suc n mod n = 1"
  by (simp add: mod_Suc)

lemma image_filling_eq:
  assumes "queueWaiters m = [FillBuffer i]" and "imageQueue m = []"
  shows "main_onmessage cfg (Image f) m =
     fillBuffer cfg (Suc i)
       (fill_upload f (notify_space cfg (m\<lparr>queueWaiters := [], imageQueue := []\<rparr>)))"
  using assms by (simp add: main_onmessage.simps queuePut_def Let_def)

lemma fill_upload_fields [simp]:
  "isReady (fill_upload f m) = isReady m"
  "imageQueue (fill_upload f m) = imageQueue m"
  "queueWaiters (fill_upload f m) = queueWaiters m"
  "pendingUpload (fill_upload f m) = pendingUpload m"
  "t (fill_upload f m) = t m"
  "currTexIdx (fill_upload f m) = currTexIdx m"
  "nextTexIdx (fill_upload f m) = nextTexIdx m"
  "frameRequested (fill_upload f m) = frameRequested m"
  "m_posted (fill_upload f m) = m_posted m"
  "console_errors (fill_upload f m) = console_errors m"
  "alerts (fill_upload f m) = alerts m"
  "dequeued (fill_upload f m) = dequeued m @ [f]"
  by (simp_all add: fill_upload_def)

text \<open>The first tick, run by \<^verbatim>\<open>fillBuffer\<close> itself.\<close>

lemma animate_first:
  "pendingUpload m = None \<Longrightarrow> t m = 0 \<Longrightarrow>
   animate cfg m = m\<lparr>frameRequested := True, t := fadd cfg 0 (dt cfg)\<rparr>"
  by (simp add: animate_def animate_rotate_def animate_render_def Let_def)

lemma on_image_filling:
  assumes "filling cfg m"
  shows "filling cfg (main_onmessage cfg (Image f) m) \<or> running cfg (main_onmessage cfg (Image f) m)"
    and "dequeued (main_onmessage cfg (Image f) m) @ imageQueue (main_onmessage cfg (Image f) m)
           = dequeued m @ imageQueue m @ [f]"
    and "notified m (main_onmessage cfg (Image f) m)"
    and "2 \<le> BUFFER_SIZE cfg \<Longrightarrow> index_inv cfg m \<Longrightarrow> index_inv cfg (main_onmessage cfg (Image f) m)"
proof -
  let ?i = "length (dequeued m)"
  let ?m1 = "fill_upload f (notify_space cfg (m\<lparr>queueWaiters := [], imageQueue := []\<rparr>))"
  let ?m' = "main_onmessage cfg (Image f) m"
  have w: "queueWaiters m = [FillBuffer ?i]" and q: "imageQueue m = []"
    and i: "?i < BUFFER_SIZE cfg" and p: "pendingUpload m = None" and t0: "t m = 0"
    and r: "isReady m" and fr: "\<not> frameRequested m" and st: "started_msg m"
    using assms by (simp_all add: filling_def)
  note eq = image_filling_eq [OF w q]
  have n1: "notified m ?m1"
    by (rule notified_cong [OF _ notified_notify_space [of "m\<lparr>queueWaiters := [], imageQueue := []\<rparr>"]])
      simp_all
  have st1: "started_msg ?m1" by (rule started_msg_notified [OF st n1])
  show "filling cfg ?m' \<or> running cfg ?m'"
       "dequeued ?m' @ imageQueue ?m' = dequeued m @ imageQueue m @ [f]"
       "notified m ?m'"
       "2 \<le> BUFFER_SIZE cfg \<Longrightarrow> index_inv cfg m \<Longrightarrow> index_inv cfg ?m'"
  proof -
    consider (more) "Suc ?i < BUFFER_SIZE cfg" | (full) "Suc ?i = BUFFER_SIZE cfg"
      using i by linarith
    then have "(filling cfg ?m' \<or> running cfg ?m')
       \<and> dequeued ?m' @ imageQueue ?m' = dequeued m @ imageQueue m @ [f]
       \<and> notified m ?m'
       \<and> (2 \<le> BUFFER_SIZE cfg \<longrightarrow> index_inv cfg m \<longrightarrow> index_inv cfg ?m')"
    proof cases
      case more
      have e: "?m' = ?m1\<lparr>queueWaiters := [FillBuffer (Suc ?i)]\<rparr>"
        by (simp add: eq fillBuffer_wait [OF more])
      have "filling cfg ?m'"
        using r more p t0 fr st1 by (simp add: e filling_def started_msg_def)
      moreover have "notified m ?m'"
        using n1 by (simp add: e notified_def)
      moreover have "index_inv cfg m \<longrightarrow> index_inv cfg ?m'"
        using more w by (simp add: e index_inv_def)
      ultimately show ?thesis by (simp add: e q)
    next
      case full
      have e: "?m' = ?m1\<lparr>frameRequested := True, t := fadd cfg 0 (dt cfg)\<rparr>"
        using full p t0 by (simp add: eq fillBuffer_done animate_first)
      have "running cfg ?m'"
        using r full st1 by (simp add: e running_def started_msg_def)
      moreover have "notified m ?m'"
        using n1 by (simp add: e notified_def)
      moreover have "2 \<le> BUFFER_SIZE cfg \<longrightarrow> index_inv cfg m \<longrightarrow> index_inv cfg ?m'"
        using w i by (simp add: e index_inv_def full Suc_mod_self)
      ultimately show ?thesis by (simp add: e q)
    qed
    then show "filling cfg ?m' \<or> running cfg ?m'"
       "dequeued ?m' @ imageQueue ?m' = dequeued m @ imageQueue m @ [f]"
       "notified m ?m'"
       "2 \<le> BUFFER_SIZE cfg \<Longrightarrow> index_inv cfg m \<Longrightarrow> index_inv cfg ?m'"
      by simp_all
  qed
qed

lemma ppu_fields [simp]:
  "isReady (processProgressiveUpload cfg m) = isReady m"
  "imageQueue (processProgressiveUpload cfg m) = imageQueue m"
  "queueWaiters (processProgressiveUpload cfg m) = queueWaiters m"
  "t (processProgressiveUpload cfg m) = t m"
  "currTexIdx (processProgressiveUpload cfg m) = currTexIdx m"
  "nextTexIdx (processProgressiveUpload cfg m) = nextTexIdx m"
  "frameRequested (processProgressiveUpload cfg m) = frameRequested m"
  "m_posted (processProgressiveUpload cfg m) = m_posted m"
  "console_errors (processProgressiveUpload cfg m) = console_errors m"
  "alerts (processProgressiveUpload cfg m) = alerts m"
  "dequeued (processProgressiveUpload cfg m) = dequeued m"
  by (simp_all add: processProgressiveUpload_def Let_def split: option.splits)

lemma animate_upload_step: "animate cfg m = animate_rotate cfg (upload_step cfg m)"
  by (simp add: animate_def upload_step_def Let_def)

lemma upload_step_fields [simp]:
  "isReady (upload_step cfg m) = isReady m"
  "imageQueue (upload_step cfg m) = imageQueue m"
  "queueWaiters (upload_step cfg m) = queueWaiters m"
  "t (upload_step cfg m) = t m"
  "currTexIdx (upload_step cfg m) = currTexIdx m"
  "nextTexIdx (upload_step cfg m) = nextTexIdx m"
  "frameRequested (upload_step cfg m) = False"
  "m_posted (upload_step cfg m) = m_posted m"
  "console_errors (upload_step cfg m) = console_errors m"
  "alerts (upload_step cfg m) = alerts m"
  "dequeued (upload_step cfg m) = dequeued m"
  by (simp_all add: upload_step_def)

lemma rotate_stay:
  assumes "\<not> 1 < t m"
  shows "animate_rotate cfg m = m\<lparr>t := fadd cfg (t m) (dt cfg), frameRequested := True\<rparr>"
  using assms by (simp add: animate_rotate_def animate_render_def)

lemma rotate_wait:
  assumes "1 < t m" and "imageQueue m = []"
  shows "isReady (animate_rotate cfg m) = isReady m"
    and "imageQueue (animate_rotate cfg m) = []"
    and "queueWaiters (animate_rotate cfg m) = queueWaiters m @ [Animate]"
    and "currTexIdx (animate_rotate cfg m) = (currTexIdx m + 1) mod BUFFER_SIZE cfg"
    and "nextTexIdx (animate_rotate cfg m) = (nextTexIdx m + 1) mod BUFFER_SIZE cfg"
    and "frameRequested (animate_rotate cfg m) = frameRequested m"
    and "m_posted (animate_rotate cfg m) = m_posted m"
    and "dequeued (animate_rotate cfg m) = dequeued m"
  using assms by (simp_all add: animate_rotate_def queueGet_def Let_def)

lemma rotate_get:
  assumes "1 < t m" and "imageQueue m = item # rest"
  shows "isReady (animate_rotate cfg m) = isReady m"
    and "imageQueue (animate_rotate cfg m) = rest"
    and "queueWaiters (animate_rotate cfg m) = queueWaiters m"
    and "currTexIdx (animate_rotate cfg m) = (currTexIdx m + 1) mod BUFFER_SIZE cfg"
    and "nextTexIdx (animate_rotate cfg m) = (nextTexIdx m + 1) mod BUFFER_SIZE cfg"
    and "frameRequested (animate_rotate cfg m) = True"
    and "m_posted (animate_rotate cfg m) =
           m_posted m @ (if length rest < MAX_QUEUE_SIZE cfg then [Queue_has_space] else [])"
    and "dequeued (animate_rotate cfg m) = dequeued m @ [item]"
  using assms by (simp_all add: animate_rotate_def queueGet_def Let_def notify_space_def)

lemma on_animate:
  assumes "running cfg m"
  shows "running cfg (animate cfg m) \<or> blocked cfg (animate cfg m)"
    and "dequeued (animate cfg m) @ imageQueue (animate cfg m) = dequeued m @ imageQueue m"
    and "notified m (animate cfg m)"
    and "index_inv cfg m \<Longrightarrow> index_inv cfg (animate cfg m)"
proof -
  let ?u = "upload_step cfg m"
  let ?m' = "animate cfg m"
  have w: "queueWaiters m = []" and r: "isReady m" and d: "BUFFER_SIZE cfg \<le> length (dequeued m)"
    and st: "started_msg m"
    using assms by (simp_all add: running_def)
  consider (stay) "\<not> 1 < t m" | (wait) "1 < t m" "imageQueue m = []"
    | (get) item rest where "1 < t m" "imageQueue m = item # rest"
    by (cases "imageQueue m") auto
  then have "(running cfg ?m' \<or> blocked cfg ?m')
     \<and> dequeued ?m' @ imageQueue ?m' = dequeued m @ imageQueue m
     \<and> notified m ?m'
     \<and> (index_inv cfg m \<longrightarrow> index_inv cfg ?m')"
  proof cases
    case stay
    then have e: "?m' = ?u\<lparr>t := fadd cfg (t m) (dt cfg), frameRequested := True\<rparr>"
      by (simp add: animate_upload_step rotate_stay)
    have "running cfg ?m'"
      using w r d st by (simp add: e running_def started_msg_def)
    moreover have "notified m ?m'" by (simp add: e notified_def)
    moreover have "index_inv cfg m \<longrightarrow> index_inv cfg ?m'" by (simp add: e index_inv_def)
    ultimately show ?thesis by (simp add: e)
  next
    case wait
    then have tu: "1 < t ?u" and qu: "imageQueue ?u = []" by simp_all
    note f = rotate_wait [OF tu qu, of cfg, folded animate_upload_step]
    have "blocked cfg ?m'"
      using w r d st by (simp add: f blocked_def started_msg_def)
    moreover have "notified m ?m'" by (simp add: f notified_def)
    moreover have "index_inv cfg m \<longrightarrow> index_inv cfg ?m'"
      using w d by (simp add: f index_inv_def mod_Suc_eq)
    ultimately show ?thesis by (simp add: f wait)
  next
    case get
    then have tu: "1 < t ?u" and qu: "imageQueue ?u = item # rest" by simp_all
    note f = rotate_get [OF tu qu, of cfg, folded animate_upload_step]
    have "running cfg ?m'"
      using w r d st by (simp add: f running_def started_msg_def nth_append)
    moreover have "notified m ?m'"
      by (cases "length rest < MAX_QUEUE_SIZE cfg") (simp_all add: notifiedI1 notifiedI0 f)
    moreover have "index_inv cfg m \<longrightarrow> index_inv cfg ?m'"
      using w d by (simp add: f index_inv_def mod_Suc_eq)
    ultimately show ?thesis by (simp add: f get)
  qed
  then show "running cfg ?m' \<or> blocked cfg ?m'"
    "dequeued ?m' @ imageQueue ?m' = dequeued m @ imageQueue m"
    "notified m ?m'"
    "index_inv cfg m \<Longrightarrow> index_inv cfg ?m'"
    by simp_all
qed

section \<open>The invariant\<close>

lemma images_simps [simp]:
  "images [] = []"
  "images (xs @ ys) = images xs @ images ys"
  "images (Image f # xs) = f # images xs"
  "images (Ready # xs) = images xs"
  "images (Error d # xs) = images xs"
  by (simp_all add: images_def)

lemmas sys_defs = sent_def in_transit_def ready_pending_def start_pending_def token_def
  space_handled_def slots_inv_def fifo_inv_def credit_inv_def

lemma inv_init: "sys_inv cfg system_init"
  by (simp add: sys_inv_def sys_defs system_init_def worker_init_def main_init_def
      phase_def idle_def)

lemma sys_invD:
  assumes "sys_inv cfg s"
  shows "worker_read s \<le> length (m_posted (main s))"
    and "main_read s \<le> length (w_posted (worker s))"
    and "token s \<le> 1"
    and "isReady (main s) \<Longrightarrow> \<not> initPending (worker s)"
    and "isReady (main s) \<Longrightarrow> ready_pending s = 0"
    and "\<not> isReady (main s) \<Longrightarrow> generating (worker s) = 0"
    and "\<not> isReady (main s) \<Longrightarrow> queueSpaceWaiters (worker s) = []"
    and "\<not> isReady (main s) \<Longrightarrow> sent s = []"
    and "phase cfg (main s)"
    and "slots_inv cfg s"
    and "fifo_inv s"
    and "credit_inv cfg s"
  using assms by (simp_all add: sys_inv_def)

lemma sys_invI:
  assumes "worker_read s \<le> length (m_posted (main s))"
    and "main_read s \<le> length (w_posted (worker s))"
    and "token s \<le> 1"
    and "isReady (main s) \<Longrightarrow> \<not> initPending (worker s) \<and> ready_pending s = 0"
    and "\<not> isReady (main s) \<Longrightarrow>
          generating (worker s) = 0 \<and> queueSpaceWaiters (worker s) = [] \<and> sent s = []"
    and "phase cfg (main s)"
    and "slots_inv cfg s"
    and "fifo_inv s"
    and "credit_inv cfg s"
  shows "sys_inv cfg s"
  using assms by (simp add: sys_inv_def)

text \<open>What the token says when one of its parts is present.\<close>

lemma token_sum:
  "token s = (if initPending (worker s) then 1 else 0) + ready_pending s + start_pending s
     + generating (worker s) + length (queueSpaceWaiters (worker s))"
  by (simp add: token_def)

lemma token_init:
  assumes "token s \<le> 1" and "initPending (worker s)"
  shows "ready_pending s = 0" "start_pending s = 0" "generating (worker s) = 0"
    "queueSpaceWaiters (worker s) = []"
  using assms by (simp_all add: token_def)

lemma token_generating:
  assumes "token s \<le> 1" and "0 < generating (worker s)"
  shows "\<not> initPending (worker s)" "ready_pending s = 0" "start_pending s = 0"
    "generating (worker s) = 1" "queueSpaceWaiters (worker s) = []"
proof -
  have "(if initPending (worker s) then 1 else 0) = (0::nat) \<and> ready_pending s = 0
      \<and> start_pending s = 0 \<and> generating (worker s) = 1
      \<and> length (queueSpaceWaiters (worker s)) = 0"
    using assms unfolding token_sum by arith
  then show "\<not> initPending (worker s)" "ready_pending s = 0" "start_pending s = 0"
    "generating (worker s) = 1" "queueSpaceWaiters (worker s) = []"
    by (simp_all split: if_splits)
qed

lemma token_waiting:
  assumes "token s \<le> 1" and "queueSpaceWaiters (worker s) \<noteq> []"
  shows "\<not> initPending (worker s)" "ready_pending s = 0" "start_pending s = 0"
    "generating (worker s) = 0" "length (queueSpaceWaiters (worker s)) = 1"
proof -
  have "0 < length (queueSpaceWaiters (worker s))" using assms(2) by simp
  then have "(if initPending (worker s) then 1 else 0) = (0::nat) \<and> ready_pending s = 0
      \<and> start_pending s = 0 \<and> generating (worker s) = 0
      \<and> length (queueSpaceWaiters (worker s)) = 1"
    using assms(1) unfolding token_sum by arith
  then show "\<not> initPending (worker s)" "ready_pending s = 0" "start_pending s = 0"
    "generating (worker s) = 0" "length (queueSpaceWaiters (worker s)) = 1"
    by (simp_all split: if_splits)
qed

lemma token_start:
  assumes "token s \<le> 1" and "0 < start_pending s"
  shows "\<not> initPending (worker s)" "ready_pending s = 0" "start_pending s = 1"
    "generating (worker s) = 0" "queueSpaceWaiters (worker s) = []"
proof -
  have "(if initPending (worker s) then 1 else 0) = (0::nat) \<and> ready_pending s = 0
      \<and> start_pending s = 1 \<and> generating (worker s) = 0
      \<and> length (queueSpaceWaiters (worker s)) = 0"
    using assms unfolding token_sum by arith
  then show "\<not> initPending (worker s)" "ready_pending s = 0" "start_pending s = 1"
    "generating (worker s) = 0" "queueSpaceWaiters (worker s) = []"
    by (simp_all split: if_splits)
qed

lemma token_ready:
  assumes "token s \<le> 1" and "0 < ready_pending s"
  shows "\<not> initPending (worker s)" "ready_pending s = 1" "start_pending s = 0"
    "generating (worker s) = 0" "queueSpaceWaiters (worker s) = []"
proof -
  have "(if initPending (worker s) then 1 else 0) = (0::nat) \<and> ready_pending s = 1
      \<and> start_pending s = 0 \<and> generating (worker s) = 0
      \<and> length (queueSpaceWaiters (worker s)) = 0"
    using assms unfolding token_sum by arith
  then show "\<not> initPending (worker s)" "ready_pending s = 1" "start_pending s = 0"
    "generating (worker s) = 0" "queueSpaceWaiters (worker s) = []"
    by (simp_all split: if_splits)
qed

text \<open>Posting a message to the page.\<close>

lemma post_to_main:
  assumes "main_read s \<le> length (w_posted (worker s))"
    and "w_posted w' = w_posted (worker s) @ [msg]"
  shows "main_read s \<le> length (w_posted w')"
    and "sent (s\<lparr>worker := w'\<rparr>) = sent s @ image_of msg"
    and "in_transit (s\<lparr>worker := w'\<rparr>) = in_transit s @ image_of msg"
    and "ready_pending (s\<lparr>worker := w'\<rparr>) = ready_pending s + (if msg = Ready then 1 else 0)"
    and "start_pending (s\<lparr>worker := w'\<rparr>) = start_pending s"
    and "space_handled (s\<lparr>worker := w'\<rparr>) = space_handled s"
  using assms by (simp_all add: sys_defs images_def)

lemma step_init_ok:
  assumes inv: "sys_inv cfg s" and st: "step cfg Worker_init_ok s = Some s'"
  shows "sys_inv cfg s'"
proof -
  let ?w' = "init_ok (worker s)"
  from st have ip: "initPending (worker s)" and s': "s' = s\<lparr>worker := ?w'\<rparr>"
    by (simp_all split: if_splits)
  note d = sys_invD [OF inv]
  note tk = token_init [OF d(3) ip]
  have nr: "\<not> isReady (main s)" using d(4) ip by blast
  have w: "w_posted ?w' = w_posted (worker s) @ [Ready]" by (simp add: init_ok_def)
  note p = post_to_main [OF d(2) w]
  show ?thesis
  proof (rule sys_invI)
    show "worker_read s' \<le> length (m_posted (main s'))" using d(1) by (simp add: s')
    show "main_read s' \<le> length (w_posted (worker s'))" using p(1) by (simp add: s')
    show "token s' \<le> 1"
      unfolding s' token_def p using tk by (simp add: init_ok_def)
    show "isReady (main s') \<Longrightarrow> \<not> initPending (worker s') \<and> ready_pending s' = 0"
      using nr by (simp add: s')
    show "\<not> isReady (main s') \<Longrightarrow>
          generating (worker s') = 0 \<and> queueSpaceWaiters (worker s') = [] \<and> sent s' = []"
      unfolding s' p using tk d(8) nr by (simp add: init_ok_def)
    show "phase cfg (main s')" using d(9) by (simp add: s')
    show "slots_inv cfg s'"
      using d(10) unfolding s' slots_inv_def p by (simp add: init_ok_def)
    show "fifo_inv s'"
      using d(11) unfolding s' fifo_inv_def p by simp
    show "credit_inv cfg s'"
      using d(12) unfolding s' credit_inv_def p by (simp add: init_ok_def)
  qed
qed

lemma step_init_fail:
  assumes inv: "sys_inv cfg s" and st: "step cfg (Worker_init_fail e) s = Some s'"
  shows "sys_inv cfg s'"
proof -
  let ?w' = "init_fail e (worker s)"
  from st have ip: "initPending (worker s)" and s': "s' = s\<lparr>worker := ?w'\<rparr>"
    by (simp_all split: if_splits)
  note d = sys_invD [OF inv]
  note tk = token_init [OF d(3) ip]
  have nr: "\<not> isReady (main s)" using d(4) ip by blast
  have w: "w_posted ?w' = w_posted (worker s) @ [Error e]" by (simp add: init_fail_def)
  note p = post_to_main [OF d(2) w]
  show ?thesis
  proof (rule sys_invI)
    show "worker_read s' \<le> length (m_posted (main s'))" using d(1) by (simp add: s')
    show "main_read s' \<le> length (w_posted (worker s'))" using p(1) by (simp add: s')
    show "token s' \<le> 1"
      unfolding s' token_def p using tk by (simp add: init_fail_def)
    show "isReady (main s') \<Longrightarrow> \<not> initPending (worker s') \<and> ready_pending s' = 0"
      using nr by (simp add: s')
    show "\<not> isReady (main s') \<Longrightarrow>
          generating (worker s') = 0 \<and> queueSpaceWaiters (worker s') = [] \<and> sent s' = []"
      unfolding s' p using tk d(8) nr by (simp add: init_fail_def)
    show "phase cfg (main s')" using d(9) by (simp add: s')
    show "slots_inv cfg s'"
      using d(10) unfolding s' slots_inv_def p by (simp add: init_fail_def)
    show "fifo_inv s'"
      using d(11) unfolding s' fifo_inv_def p by simp
    show "credit_inv cfg s'"
      using d(12) unfolding s' credit_inv_def p by (simp add: init_fail_def)
  qed
qed

lemma step_generate_fail:
  assumes inv: "sys_inv cfg s" and st: "step cfg (Worker_generate_fail e) s = Some s'"
  shows "sys_inv cfg s'"
proof -
  let ?w' = "generate_fail e (worker s)"
  from st have g: "0 < generating (worker s)" and s': "s' = s\<lparr>worker := ?w'\<rparr>"
    by (simp_all split: if_splits)
  note d = sys_invD [OF inv]
  have r: "isReady (main s)" using d(6) g by auto
  have w: "w_posted ?w' = w_posted (worker s) @ [Error e]" by (simp add: generate_fail_def)
  note p = post_to_main [OF d(2) w]
  show ?thesis
  proof (rule sys_invI)
    show "worker_read s' \<le> length (m_posted (main s'))" using d(1) by (simp add: s')
    show "main_read s' \<le> length (w_posted (worker s'))" using p(1) by (simp add: s')
    show "token s' \<le> 1"
      unfolding s' token_def p using d(3) by (simp add: generate_fail_def token_def)
    show "isReady (main s') \<Longrightarrow> \<not> initPending (worker s') \<and> ready_pending s' = 0"
      unfolding s' p using d(4,5) by (simp add: generate_fail_def)
    show "\<not> isReady (main s') \<Longrightarrow>
          generating (worker s') = 0 \<and> queueSpaceWaiters (worker s') = [] \<and> sent s' = []"
      using r by (simp add: s')
    show "phase cfg (main s')" using d(9) by (simp add: s')
    show "slots_inv cfg s'"
      using d(10) unfolding s' slots_inv_def p by (simp add: generate_fail_def)
    show "fifo_inv s'"
      using d(11) unfolding s' fifo_inv_def p by simp
    show "credit_inv cfg s'"
      using d(12) unfolding s' credit_inv_def p by (simp add: generate_fail_def)
  qed
qed

lemma step_generated:
  assumes inv: "sys_inv cfg s" and st: "step cfg (Worker_generated x) s = Some s'"
  shows "sys_inv cfg s'"
proof -
  let ?w = "worker s"
  let ?w' = "continuousGenerate cfg x ?w"
  let ?f = "\<lparr>slotIdx = worker_slotIdx ?w, imageData = x\<rparr>"
  from st have g: "0 < generating ?w" and s': "s' = s\<lparr>worker := ?w'\<rparr>"
    by (simp_all split: if_splits)
  note d = sys_invD [OF inv]
  note tk = token_generating [OF d(3) g]
  have r: "isReady (main s)" using d(6) g by auto
  have sl: "worker_slotIdx ?w = length (sent s) mod BUFFER_SIZE cfg"
    and sm: "map slotIdx (sent s) = map (\<lambda>i. i mod BUFFER_SIZE cfg) [0 ..< length (sent s)]"
    using d(10) tk(5) by (simp_all add: slots_inv_def)
  have cr: "queueSpaceAvailable ?w + length (sent s) = BUFFER_SIZE cfg + space_handled s"
    using d(12) g by (simp add: credit_inv_def)
  show ?thesis
  proof (cases "0 < queueSpaceAvailable ?w")
    case True
    have w: "w_posted ?w' = w_posted ?w @ [Image ?f]"
      using True by (simp add: continuousGenerate_def generateImage_def waitToSend_def)
    have f: "worker_slotIdx ?w' = (worker_slotIdx ?w + 1) mod BUFFER_SIZE cfg"
      "queueSpaceAvailable ?w' = queueSpaceAvailable ?w - 1"
      "queueSpaceWaiters ?w' = queueSpaceWaiters ?w"
      "generating ?w' = generating ?w" "initPending ?w' = initPending ?w"
      using True by (simp_all add: continuousGenerate_def generateImage_def waitToSend_def)
    note p = post_to_main [OF d(2) w]
    show ?thesis
    proof (rule sys_invI)
      show "worker_read s' \<le> length (m_posted (main s'))" using d(1) by (simp add: s')
      show "main_read s' \<le> length (w_posted (worker s'))" using p(1) by (simp add: s')
      show "token s' \<le> 1"
        unfolding s' token_def p using d(3) by (simp add: f token_def)
      show "isReady (main s') \<Longrightarrow> \<not> initPending (worker s') \<and> ready_pending s' = 0"
        unfolding s' p using d(4,5) by (simp add: f)
      show "\<not> isReady (main s') \<Longrightarrow>
          generating (worker s') = 0 \<and> queueSpaceWaiters (worker s') = [] \<and> sent s' = []"
        using r by (simp add: s')
      show "phase cfg (main s')" using d(9) by (simp add: s')
      show "slots_inv cfg s'"
        unfolding s' slots_inv_def p using sl sm tk(5) by (simp add: f mod_Suc_eq)
      show "fifo_inv s'"
        using d(11) unfolding s' fifo_inv_def p by simp
      show "credit_inv cfg s'"
        unfolding s' credit_inv_def p using cr g True by (simp add: f)
    qed
  next
    case False
    have w: "w_posted ?w' = w_posted ?w"
      using False by (simp add: continuousGenerate_def generateImage_def waitToSend_def)
    have f: "worker_slotIdx ?w' = (worker_slotIdx ?w + 1) mod BUFFER_SIZE cfg"
      "queueSpaceAvailable ?w' = queueSpaceAvailable ?w"
      "queueSpaceWaiters ?w' = queueSpaceWaiters ?w @ [?f]"
      "generating ?w' = generating ?w - 1" "initPending ?w' = initPending ?w"
      using False by (simp_all add: continuousGenerate_def generateImage_def waitToSend_def)
    have q: "sent (s\<lparr>worker := ?w'\<rparr>) = sent s" "in_transit (s\<lparr>worker := ?w'\<rparr>) = in_transit s"
      "ready_pending (s\<lparr>worker := ?w'\<rparr>) = ready_pending s"
      "start_pending (s\<lparr>worker := ?w'\<rparr>) = start_pending s"
      "space_handled (s\<lparr>worker := ?w'\<rparr>) = space_handled s"
      by (simp_all add: sys_defs w)
    show ?thesis
    proof (rule sys_invI)
      show "worker_read s' \<le> length (m_posted (main s'))" using d(1) by (simp add: s')
      show "main_read s' \<le> length (w_posted (worker s'))" using d(2) by (simp add: s' w)
      show "token s' \<le> 1"
        unfolding s' token_def q using d(3) tk by (simp add: f token_def)
      show "isReady (main s') \<Longrightarrow> \<not> initPending (worker s') \<and> ready_pending s' = 0"
        unfolding s' q using d(4,5) by (simp add: f)
      show "\<not> isReady (main s') \<Longrightarrow>
          generating (worker s') = 0 \<and> queueSpaceWaiters (worker s') = [] \<and> sent s' = []"
        using r by (simp add: s')
      show "phase cfg (main s')" using d(9) by (simp add: s')
      show "slots_inv cfg s'"
        unfolding s' slots_inv_def q using sl sm tk(5) by (simp add: f mod_Suc_eq)
      show "fifo_inv s'"
        using d(11) unfolding s' fifo_inv_def q by simp
      show "credit_inv cfg s'"
        unfolding s' credit_inv_def q using cr g False by (simp add: f)
    qed
  qed
qed

lemma phase_posted:
  assumes "phase cfg m" and "m_posted m \<noteq> []"
  shows "isReady m" and "m_posted m ! 0 = Start_generating"
  using assms by (auto simp: phase_def idle_def filling_def running_def blocked_def started_msg_def)

lemma phase_ready:
  assumes "phase cfg m" and "isReady m"
  shows "filling cfg m \<or> running cfg m \<or> blocked cfg m"
  using assms by (auto simp: phase_def idle_def)

lemma phase_not_ready:
  assumes "phase cfg m" and "\<not> isReady m"
  shows "idle m"
  using assms by (auto simp: phase_def filling_def running_def blocked_def)

lemma phase_frame:
  assumes "phase cfg m" and "frameRequested m"
  shows "running cfg m"
  using assms by (auto simp: phase_def idle_def filling_def blocked_def)

lemma notified_posted:
  assumes "notified m m'" and "r \<le> length (m_posted m)"
  shows "r \<le> length (m_posted m')"
    and "count_list (drop r (m_posted m')) Start_generating =
         count_list (drop r (m_posted m)) Start_generating"
    and "take r (m_posted m') = take r (m_posted m)"
  using assms by (auto simp: notified_def)

text \<open>The worker takes the next message of the page.\<close>

lemma worker_takes:
  assumes "worker_read s < length (m_posted (main s))"
  shows "start_pending s =
      (if m_posted (main s) ! worker_read s = Start_generating then 1 else 0)
      + start_pending (s\<lparr>worker := w', worker_read := Suc (worker_read s)\<rparr>)"
    and "space_handled (s\<lparr>worker := w', worker_read := Suc (worker_read s)\<rparr>) =
      space_handled s + (if m_posted (main s) ! worker_read s = Queue_has_space then 1 else 0)"
proof -
  have "drop (worker_read s) (m_posted (main s)) =
      m_posted (main s) ! worker_read s # drop (Suc (worker_read s)) (m_posted (main s))"
    using assms by (simp add: Cons_nth_drop_Suc)
  then show "start_pending s =
      (if m_posted (main s) ! worker_read s = Start_generating then 1 else 0)
      + start_pending (s\<lparr>worker := w', worker_read := Suc (worker_read s)\<rparr>)"
    by (simp add: start_pending_def)
  show "space_handled (s\<lparr>worker := w', worker_read := Suc (worker_read s)\<rparr>) =
      space_handled s + (if m_posted (main s) ! worker_read s = Queue_has_space then 1 else 0)"
    using assms by (simp add: space_handled_def take_Suc_conv_app_nth)
qed

lemma worker_side:
  "sent (s\<lparr>worker := w', worker_read := r\<rparr>) = sent (s\<lparr>worker := w'\<rparr>)"
  "in_transit (s\<lparr>worker := w', worker_read := r\<rparr>) = in_transit (s\<lparr>worker := w'\<rparr>)"
  "ready_pending (s\<lparr>worker := w', worker_read := r\<rparr>) = ready_pending (s\<lparr>worker := w'\<rparr>)"
  by (simp_all add: sys_defs)

lemma worker_silent:
  assumes "w_posted w' = w_posted (worker s)"
  shows "sent (s\<lparr>worker := w'\<rparr>) = sent s"
    and "in_transit (s\<lparr>worker := w'\<rparr>) = in_transit s"
    and "ready_pending (s\<lparr>worker := w'\<rparr>) = ready_pending s"
  using assms by (simp_all add: sys_defs)

lemma step_worker_receive:
  assumes inv: "sys_inv cfg s" and st: "step cfg Worker_receive s = Some s'"
  shows "sys_inv cfg s'"
proof -
  let ?w = "worker s"
  let ?msg = "m_posted (main s) ! worker_read s"
  let ?w' = "worker_onmessage cfg ?msg ?w"
  from st have lt: "worker_read s < length (m_posted (main s))"
    and s': "s' = s\<lparr>worker := ?w', worker_read := Suc (worker_read s)\<rparr>"
    by (simp_all split: if_splits)
  note d = sys_invD [OF inv]
  note tk = worker_takes [OF lt, of ?w']
  have ne: "m_posted (main s) \<noteq> []" using lt by auto
  note ph = phase_posted [OF d(9) ne]
  show ?thesis
  proof (cases ?msg)
    case Start_generating
    then have sp: "0 < start_pending s" using tk(1) by simp
    note t = token_start [OF d(3) sp]
    have c: "queueSpaceAvailable ?w = 0" "sent s = []" "worker_read s = 0"
      using d(12) t by (simp_all add: credit_inv_def)
    have w: "w_posted ?w' = w_posted ?w" by (simp add: Start_generating)
    have f: "worker_slotIdx ?w' = worker_slotIdx ?w"
      "queueSpaceAvailable ?w' = BUFFER_SIZE cfg"
      "queueSpaceWaiters ?w' = queueSpaceWaiters ?w"
      "generating ?w' = generating ?w + 1" "initPending ?w' = initPending ?w"
      by (simp_all add: Start_generating)
    note q = worker_silent [OF w]
    have sp': "start_pending s' = 0" using tk(1) t(3) by (simp add: s' Start_generating)
    have sh': "space_handled s' = 0"
      using tk(2) c(3) ph(2) by (simp add: s' space_handled_def)
    show ?thesis
    proof (rule sys_invI)
      show "worker_read s' \<le> length (m_posted (main s'))" using lt by (simp add: s')
      show "main_read s' \<le> length (w_posted (worker s'))" using d(2) by (simp add: s' w)
      show "token s' \<le> 1"
        unfolding token_sum sp' using t by (simp add: s' worker_side q f)
      show "isReady (main s') \<Longrightarrow> \<not> initPending (worker s') \<and> ready_pending s' = 0"
        using t by (simp add: s' worker_side q f)
      show "\<not> isReady (main s') \<Longrightarrow>
          generating (worker s') = 0 \<and> queueSpaceWaiters (worker s') = [] \<and> sent s' = []"
        using ph(1) by (simp add: s')
      show "phase cfg (main s')" using d(9) by (simp add: s')
      show "slots_inv cfg s'"
        using d(10) by (simp add: s' slots_inv_def worker_side q f)
      show "fifo_inv s'"
        using d(11) by (simp add: s' fifo_inv_def worker_side q)
      show "credit_inv cfg s'"
        unfolding credit_inv_def sh' using c(2) by (simp add: s' worker_side q f)
    qed
  next
    case Queue_has_space
    have sp': "start_pending s' = start_pending s"
      using tk(1) by (simp add: s' Queue_has_space)
    have sh': "space_handled s' = space_handled s + 1"
      using tk(2) by (simp add: s' Queue_has_space)
    have started: "0 < generating ?w + length (queueSpaceWaiters ?w)"
    proof (rule ccontr)
      assume "\<not> 0 < generating ?w + length (queueSpaceWaiters ?w)"
      then have "worker_read s = 0" using d(12) by (simp add: credit_inv_def)
      then show False using ph(2) Queue_has_space by simp
    qed
    then have cr: "queueSpaceAvailable ?w + length (sent s) = BUFFER_SIZE cfg + space_handled s"
      using d(12) by (simp add: credit_inv_def)
    have r: "isReady (main s)" by (rule ph(1))
    show ?thesis
    proof (cases "queueSpaceWaiters ?w")
      case Nil
      have g: "0 < generating ?w" using started Nil by simp
      have w: "w_posted ?w' = w_posted ?w" by (simp add: Queue_has_space Nil)
      have f: "worker_slotIdx ?w' = worker_slotIdx ?w"
        "queueSpaceAvailable ?w' = queueSpaceAvailable ?w + 1"
        "queueSpaceWaiters ?w' = []"
        "generating ?w' = generating ?w" "initPending ?w' = initPending ?w"
        by (simp_all add: Queue_has_space Nil)
      note q = worker_silent [OF w]
      show ?thesis
      proof (rule sys_invI)
        show "worker_read s' \<le> length (m_posted (main s'))" using lt by (simp add: s')
        show "main_read s' \<le> length (w_posted (worker s'))" using d(2) by (simp add: s' w)
        show "token s' \<le> 1"
          unfolding token_sum sp' using d(3) Nil by (simp add: s' worker_side q f token_sum)
        show "isReady (main s') \<Longrightarrow> \<not> initPending (worker s') \<and> ready_pending s' = 0"
          using d(4,5) by (simp add: s' worker_side q f)
        show "\<not> isReady (main s') \<Longrightarrow>
            generating (worker s') = 0 \<and> queueSpaceWaiters (worker s') = [] \<and> sent s' = []"
          using r by (simp add: s')
        show "phase cfg (main s')" using d(9) by (simp add: s')
        show "slots_inv cfg s'"
          using d(10) Nil by (simp add: s' slots_inv_def worker_side q f)
        show "fifo_inv s'"
          using d(11) by (simp add: s' fifo_inv_def worker_side q)
        show "credit_inv cfg s'"
          unfolding credit_inv_def sh' using cr g by (simp add: s' worker_side q f)
      qed
    next
      case (Cons result rest)
      then have wne: "queueSpaceWaiters ?w \<noteq> []" by simp
      note t = token_waiting [OF d(3) wne]
      have rest: "rest = []" using t(5) Cons by simp
      have w: "w_posted ?w' = w_posted ?w @ [Image result]" by (simp add: Queue_has_space Cons)
      have f: "worker_slotIdx ?w' = worker_slotIdx ?w"
        "queueSpaceAvailable ?w' = queueSpaceAvailable ?w"
        "queueSpaceWaiters ?w' = []"
        "generating ?w' = generating ?w + 1" "initPending ?w' = initPending ?w"
        by (simp_all add: Queue_has_space Cons rest)
      note p = post_to_main [OF d(2) w]
      show ?thesis
      proof (rule sys_invI)
        show "worker_read s' \<le> length (m_posted (main s'))" using lt by (simp add: s')
        show "main_read s' \<le> length (w_posted (worker s'))" using p(1) by (simp add: s')
        show "token s' \<le> 1"
          unfolding token_sum sp' using t by (simp add: s' worker_side p f)
        show "isReady (main s') \<Longrightarrow> \<not> initPending (worker s') \<and> ready_pending s' = 0"
          using t by (simp add: s' worker_side p f)
        show "\<not> isReady (main s') \<Longrightarrow>
            generating (worker s') = 0 \<and> queueSpaceWaiters (worker s') = [] \<and> sent s' = []"
          using r by (simp add: s')
        show "phase cfg (main s')" using d(9) by (simp add: s')
        show "slots_inv cfg s'"
          using d(10) Cons rest by (simp add: s' slots_inv_def worker_side p f)
        show "fifo_inv s'"
          using d(11) by (simp add: s' fifo_inv_def worker_side p)
        show "credit_inv cfg s'"
          unfolding credit_inv_def sh' using cr t Cons rest by (simp add: s' worker_side p f)
      qed
    qed
  qed
qed

text \<open>The page takes the next message of the worker.\<close>

lemma main_takes:
  assumes "main_read s < length (w_posted (worker s))"
  shows "in_transit s = image_of (w_posted (worker s) ! main_read s)
           @ in_transit (s\<lparr>main := m', main_read := Suc (main_read s)\<rparr>)"
    and "ready_pending s = (if w_posted (worker s) ! main_read s = Ready then 1 else 0)
           + ready_pending (s\<lparr>main := m', main_read := Suc (main_read s)\<rparr>)"
proof -
  have "drop (main_read s) (w_posted (worker s)) =
      w_posted (worker s) ! main_read s # drop (Suc (main_read s)) (w_posted (worker s))"
    using assms by (simp add: Cons_nth_drop_Suc)
  then show "in_transit s = image_of (w_posted (worker s) ! main_read s)
           @ in_transit (s\<lparr>main := m', main_read := Suc (main_read s)\<rparr>)"
    and "ready_pending s = (if w_posted (worker s) ! main_read s = Ready then 1 else 0)
           + ready_pending (s\<lparr>main := m', main_read := Suc (main_read s)\<rparr>)"
    by (simp_all add: in_transit_def ready_pending_def images_def)
qed

lemma main_side:
  "sent (s\<lparr>main := m', main_read := r\<rparr>) = sent s"
  "sent (s\<lparr>main := m'\<rparr>) = sent s"
  "in_transit (s\<lparr>main := m'\<rparr>) = in_transit s"
  "ready_pending (s\<lparr>main := m'\<rparr>) = ready_pending s"
  "start_pending (s\<lparr>main := m', main_read := r\<rparr>) = start_pending (s\<lparr>main := m'\<rparr>)"
  "space_handled (s\<lparr>main := m', main_read := r\<rparr>) = space_handled (s\<lparr>main := m'\<rparr>)"
  by (simp_all add: sys_defs)

lemma main_notified:
  assumes "notified (main s) m'" and "worker_read s \<le> length (m_posted (main s))"
  shows "worker_read s \<le> length (m_posted m')"
    and "start_pending (s\<lparr>main := m'\<rparr>) = start_pending s"
    and "space_handled (s\<lparr>main := m'\<rparr>) = space_handled s"
  using notified_posted [OF assms] by (simp_all add: start_pending_def space_handled_def)

text \<open>A task of the page that leaves the worker alone, posts only space notifications,
  keeps the frames it holds and stays in a phase.\<close>

lemma main_task:
  assumes inv: "sys_inv cfg s"
    and r: "isReady (main s)" and r': "isReady m'"
    and ph: "phase cfg m'"
    and n: "notified (main s) m'"
    and rd: "main_read s \<le> r0" "r0 \<le> length (w_posted (worker s))"
    and rp: "ready_pending (s\<lparr>main := m', main_read := r0\<rparr>) = 0"
    and fr: "dequeued m' @ imageQueue m' @ in_transit (s\<lparr>main := m', main_read := r0\<rparr>) =
             dequeued (main s) @ imageQueue (main s) @ in_transit s"
  shows "sys_inv cfg (s\<lparr>main := m', main_read := r0\<rparr>)"
proof -
  let ?s' = "s\<lparr>main := m', main_read := r0\<rparr>"
  note d = sys_invD [OF inv]
  note m = main_notified [OF n d(1)]
  show ?thesis
  proof (rule sys_invI)
    show "worker_read ?s' \<le> length (m_posted (main ?s'))" using m(1) by simp
    show "main_read ?s' \<le> length (w_posted (worker ?s'))" using rd by simp
    show "token ?s' \<le> 1"
      unfolding token_sum rp using d(3) d(5) [OF r] by (simp add: main_side m token_sum)
    show "isReady (main ?s') \<Longrightarrow> \<not> initPending (worker ?s') \<and> ready_pending ?s' = 0"
      using d(4) [OF r] rp by simp
    show "\<not> isReady (main ?s') \<Longrightarrow>
        generating (worker ?s') = 0 \<and> queueSpaceWaiters (worker ?s') = [] \<and> sent ?s' = []"
      using r' by simp
    show "phase cfg (main ?s')" using ph by simp
    show "slots_inv cfg ?s'" using d(10) by (simp add: slots_inv_def main_side)
    show "fifo_inv ?s'" using d(11) fr by (simp add: fifo_inv_def main_side)
    show "credit_inv cfg ?s'" using d(12) by (simp add: credit_inv_def main_side m)
  qed
qed

lemma step_animation_frame:
  assumes inv: "sys_inv cfg s" and st: "step cfg Animation_frame s = Some s'"
  shows "sys_inv cfg s'"
proof -
  let ?m' = "animate cfg (main s)"
  from st have fq: "frameRequested (main s)" and s': "s' = s\<lparr>main := ?m'\<rparr>"
    by (simp_all split: if_splits)
  note d = sys_invD [OF inv]
  have run: "running cfg (main s)" by (rule phase_frame [OF d(9) fq])
  then have r: "isReady (main s)" by (simp add: running_def)
  note a = on_animate [OF run]
  have r': "isReady ?m'" using a(1) by (auto simp: running_def blocked_def)
  have ph: "phase cfg ?m'" using a(1) by (auto simp: phase_def)
  have e: "s' = s\<lparr>main := ?m', main_read := main_read s\<rparr>" by (simp add: s')
  show ?thesis
    unfolding e
  proof (rule main_task [OF inv r r' ph a(3) _ d(2)])
    show "main_read s \<le> main_read s" by simp
    show "ready_pending (s\<lparr>main := ?m', main_read := main_read s\<rparr>) = 0"
      using d(5) [OF r] by (simp add: ready_pending_def)
    show "dequeued ?m' @ imageQueue ?m' @
        in_transit (s\<lparr>main := ?m', main_read := main_read s\<rparr>) =
        dequeued (main s) @ imageQueue (main s) @ in_transit s"
      using a(2) by (simp add: in_transit_def)
  qed
qed

lemma image_of_nth_sent:
  assumes "main_read s < length (w_posted (worker s))"
    and "w_posted (worker s) ! main_read s = Image f"
  shows "sent s \<noteq> []"
proof -
  have "Image f \<in> set (w_posted (worker s))"
    using assms by (metis nth_mem)
  then obtain xs ys where "w_posted (worker s) = xs @ Image f # ys"
    by (meson split_list)
  then show ?thesis by (simp add: sent_def)
qed

lemma step_main_receive:
  assumes inv: "sys_inv cfg s" and N: "0 < BUFFER_SIZE cfg"
    and st: "step cfg Main_receive s = Some s'"
  shows "sys_inv cfg s'"
proof -
  let ?m = "main s"
  let ?msg = "w_posted (worker s) ! main_read s"
  let ?m' = "main_onmessage cfg ?msg ?m"
  let ?s' = "s\<lparr>main := ?m', main_read := Suc (main_read s)\<rparr>"
  from st have lt: "main_read s < length (w_posted (worker s))" and s': "s' = ?s'"
    by (simp_all split: if_splits)
  note d = sys_invD [OF inv]
  note tk = main_takes [OF lt, of ?m']
  show ?thesis
  proof (cases ?msg)
    case Ready
    then have rp: "0 < ready_pending s" using tk(2) by simp
    note t = token_ready [OF d(3) rp]
    have nr: "\<not> isReady ?m" using d(5) rp by auto
    have idle: "idle ?m" by (rule phase_not_ready [OF d(9) nr])
    note o = on_ready [OF idle N, folded Ready]
    have rw: "worker_read s = 0" using d(1) idle by (simp add: idle_def)
    have se: "sent s = []" by (rule d(8) [OF nr])
    have it: "in_transit s = []" using d(11) se by (simp add: fifo_inv_def)
    have it': "in_transit ?s' = []" using tk(1) it by simp
    have rp': "ready_pending ?s' = 0" using tk(2) t(2) Ready by simp
    have sp': "start_pending ?s' = 1" by (simp add: start_pending_def rw o(4))
    have q: "dequeued ?m = []" "imageQueue ?m = []" using idle by (simp_all add: idle_def)
    show ?thesis
      unfolding s'
    proof (rule sys_invI)
      show "worker_read ?s' \<le> length (m_posted (main ?s'))" by (simp add: rw)
      show "main_read ?s' \<le> length (w_posted (worker ?s'))" using lt by simp
      show "token ?s' \<le> 1"
        unfolding token_sum rp' sp' using t by simp
      show "isReady (main ?s') \<Longrightarrow> \<not> initPending (worker ?s') \<and> ready_pending ?s' = 0"
        using t(1) rp' by simp
      show "\<not> isReady (main ?s') \<Longrightarrow>
          generating (worker ?s') = 0 \<and> queueSpaceWaiters (worker ?s') = [] \<and> sent ?s' = []"
        using t se by (simp add: main_side)
      show "phase cfg (main ?s')" using o(1) by (simp add: phase_def)
      show "slots_inv cfg ?s'" using d(10) by (simp add: slots_inv_def main_side)
      show "fifo_inv ?s'" using se it' o(2,3) by (simp add: fifo_inv_def main_side)
      show "credit_inv cfg ?s'"
        using d(12) t rw by (simp add: credit_inv_def main_side)
    qed
  next
    case (Error e)
    note o = on_error [of cfg e ?m, folded Error]
    have n: "notified ?m ?m'" by (rule notifiedI0 [OF o(4)])
    note m = main_notified [OF n d(1)]
    have it': "in_transit ?s' = in_transit s" using tk(1) Error by simp
    have rp': "ready_pending ?s' = ready_pending s" using tk(2) Error by simp
    show ?thesis
      unfolding s'
    proof (rule sys_invI)
      show "worker_read ?s' \<le> length (m_posted (main ?s'))" using m(1) by simp
      show "main_read ?s' \<le> length (w_posted (worker ?s'))" using lt by simp
      show "token ?s' \<le> 1"
        unfolding token_sum rp' using d(3) by (simp add: main_side m token_sum)
      show "isReady (main ?s') \<Longrightarrow> \<not> initPending (worker ?s') \<and> ready_pending ?s' = 0"
        using d(4,5) rp' by (simp add: o)
      show "\<not> isReady (main ?s') \<Longrightarrow>
          generating (worker ?s') = 0 \<and> queueSpaceWaiters (worker ?s') = [] \<and> sent ?s' = []"
        using d(6,7,8) by (simp add: o main_side)
      show "phase cfg (main ?s')" using d(9) by (simp add: o)
      show "slots_inv cfg ?s'" using d(10) by (simp add: slots_inv_def main_side)
      show "fifo_inv ?s'" using d(11) by (simp add: fifo_inv_def main_side it' o)
      show "credit_inv cfg ?s'" using d(12) by (simp add: credit_inv_def main_side m)
    qed
  next
    case (Image f)
    have "sent s \<noteq> []" by (rule image_of_nth_sent [OF lt Image])
    then have r: "isReady ?m" using d(8) by blast
    note ph = phase_ready [OF d(9) r]
    have o: "(filling cfg ?m' \<or> running cfg ?m')
        \<and> dequeued ?m' @ imageQueue ?m' = dequeued ?m @ imageQueue ?m @ [f]
        \<and> notified ?m ?m'"
      using ph on_image_filling [of cfg ?m f] on_image_running [of cfg ?m f]
        on_image_blocked [of cfg ?m f]
      unfolding Image by blast
    have r': "isReady ?m'" using o by (auto simp: filling_def running_def)
    have ph': "phase cfg ?m'" using o by (auto simp: phase_def)
    have it: "in_transit s = f # in_transit ?s'" using tk(1) Image by simp
    have rp': "ready_pending ?s' = 0" using tk(2) d(5) [OF r] by simp
    have fr: "dequeued ?m' @ imageQueue ?m' @ in_transit ?s' =
        dequeued ?m @ imageQueue ?m @ in_transit s"
    proof -
      have "dequeued ?m' @ imageQueue ?m' @ in_transit ?s' =
          (dequeued ?m' @ imageQueue ?m') @ in_transit ?s'" by simp
      also have "\<dots> = (dequeued ?m @ imageQueue ?m @ [f]) @ in_transit ?s'"
        using o by simp
      finally show ?thesis by (simp add: it)
    qed
    show ?thesis
      unfolding s'
      by (rule main_task [OF inv r r' ph' _ _ _ rp' fr]) (use o lt in simp_all)
  qed
qed

lemma step_inv:
  assumes "sys_inv cfg s" and "0 < BUFFER_SIZE cfg" and "step cfg e s = Some s'"
  shows "sys_inv cfg s'"
  using assms
  by (cases e)
    (blast intro: step_init_ok step_init_fail step_generated step_generate_fail
      step_worker_receive step_main_receive step_animation_frame)+

lemma run_inv:
  assumes "0 < BUFFER_SIZE cfg"
  shows "sys_inv cfg s \<Longrightarrow> run cfg es s = Some s' \<Longrightarrow> sys_inv cfg s'"
proof (induction es arbitrary: s)
  case Nil
  then show ?case by simp
next
  case (Cons e es)
  from Cons.prems(2) obtain s1 where s1: "step cfg e s = Some s1" and r: "run cfg es s1 = Some s'"
    by (auto split: option.splits)
  from step_inv [OF Cons.prems(1) assms s1] have "sys_inv cfg s1" .
  from Cons.IH [OF this r] show ?case .
qed

lemma reachable_inv:
  "0 < BUFFER_SIZE cfg \<Longrightarrow> run cfg es system_init = Some s \<Longrightarrow> sys_inv cfg s"
  using run_inv [OF _ inv_init] by blast

lemma step_index:
  assumes inv: "sys_inv cfg s" and N: "2 \<le> BUFFER_SIZE cfg"
    and ix: "index_inv cfg (main s)" and st: "step cfg e s = Some s'"
  shows "index_inv cfg (main s')"
proof (cases e)
  case Main_receive
  let ?msg = "w_posted (worker s) ! main_read s"
  from st Main_receive have lt: "main_read s < length (w_posted (worker s))"
    and s': "main s' = main_onmessage cfg ?msg (main s)"
    by (auto split: if_splits)
  note d = sys_invD [OF inv]
  show ?thesis
  proof (cases ?msg)
    case Ready
    have "0 < ready_pending s" using main_takes(2) [OF lt, of "main s"] Ready by simp
    then have "\<not> isReady (main s)" using d(5) by auto
    then have "idle (main s)" by (rule phase_not_ready [OF d(9)])
    then show ?thesis using on_ready_index [of "main s" cfg] N ix by (simp add: s' Ready)
  next
    case (Error x)
    then show ?thesis using ix by (simp add: s' on_error_index)
  next
    case (Image f)
    have "sent s \<noteq> []" by (rule image_of_nth_sent [OF lt Image])
    then have "isReady (main s)" using d(8) by blast
    from phase_ready [OF d(9) this] show ?thesis
      using on_image_filling(4) [OF _ N ix, of f] on_image_running(4) [OF _ ix, of f]
        on_image_blocked(4) [OF _ ix, of f]
      by (auto simp: s' Image)
  qed
next
  case Animation_frame
  from st Animation_frame have fq: "frameRequested (main s)"
    and s': "main s' = animate cfg (main s)"
    by (auto split: if_splits)
  have "running cfg (main s)" by (rule phase_frame [OF sys_invD(9) [OF inv] fq])
  from on_animate(4) [OF this ix] show ?thesis by (simp add: s')
qed (use st ix in \<open>auto split: if_splits\<close>)

lemma run_index:
  assumes N: "2 \<le> BUFFER_SIZE cfg"
  shows "sys_inv cfg s \<Longrightarrow> index_inv cfg (main s) \<Longrightarrow> run cfg es s = Some s' \<Longrightarrow>
     index_inv cfg (main s')"
proof (induction es arbitrary: s)
  case Nil
  then show ?case by simp
next
  case (Cons e es)
  from Cons.prems(3) obtain s1 where s1: "step cfg e s = Some s1" and r: "run cfg es s1 = Some s'"
    by (auto split: option.splits)
  have N1: "0 < BUFFER_SIZE cfg" using N by simp
  from step_inv [OF Cons.prems(1) N1 s1] have i1: "sys_inv cfg s1" .
  from step_index [OF Cons.prems(1) N Cons.prems(2) s1] have i2: "index_inv cfg (main s1)" .
  from Cons.IH [OF i1 i2 r] show ?case .
qed

lemma reachable_index:
  assumes "2 \<le> BUFFER_SIZE cfg" and "run cfg es system_init = Some s"
  shows "index_inv cfg (main s)"
proof -
  have "index_inv cfg (main system_init)"
    using assms(1) by (simp add: index_inv_def system_init_def main_init_def)
  from run_index [OF assms(1) inv_init this assms(2)] show ?thesis .
qed

section \<open>Concrete executions\<close>

lemmas op_defs = queuePut_def queueGet_def notify_space_def animate_def animate_rotate_def
  animate_resume_def animate_render_def fill_upload_def init_ok_def init_fail_def
  generateImage_def waitToSend_def continuousGenerate_def generate_fail_def
  processProgressiveUpload_def rowsToUpload_def double_framesLeft double_clock
  fillBuffer.simps main_onmessage.simps system_init_def main_init_def worker_init_def Let_def
  dt_app_config

lemma run_credit_events: "run app_config credit_events system_init = Some after_credit"
  by (simp add: credit_events_def fill_events_def after_credit_def app_config_simps op_defs)

lemma run_double_credit_events:
  "run app_config double_credit_events after_credit = Some after_double_credit"
  by (simp add: double_credit_events_def after_credit_def after_double_credit_def
      app_config_simps op_defs)

lemma run_rotation_events: "run app_config rotation_events system_init = Some after_rotation"
  by (simp add: rotation_events_def fill_events_def after_rotation_def app_config_simps op_defs)

lemma run_upload_events: "run app_config upload_events after_rotation = Some after_upload"
  by (simp add: upload_events_def after_rotation_def after_upload_def double_chunks_def
      chunk_of_def app_config_simps op_defs)

lemma run_error_events: "run app_config error_events system_init = Some after_error"
  by (simp add: error_events_def after_error_def app_config_simps op_defs)

lemma run_error_frame:
  "run app_config [Worker_generated 10, Main_receive] after_error = Some after_error_frame"
  by (simp add: after_error_def after_error_frame_def app_config_simps op_defs)

section \<open>The handoff queue\<close>

text \<open>
  Claim C9.  In every state reached by an execution, \<^verbatim>\<open>imageQueue\<close> and
  \<^verbatim>\<open>queueWaiters\<close> are not both non-empty.
\<close>

theorem queue_and_waiters_exclusive:
  assumes "0 < BUFFER_SIZE cfg" and "run cfg es system_init = Some s"
  shows "imageQueue (main s) = [] \<or> queueWaiters (main s) = []"
  using sys_invD(9) [OF reachable_inv [OF assms]]
  by (auto simp: phase_def idle_def filling_def running_def blocked_def)

theorem queue_and_waiters_exclusive_witness:
  "0 < BUFFER_SIZE app_config
   \<and> run app_config rotation_events system_init = Some after_rotation
   \<and> imageQueue (main after_rotation) = []"
proof -
  have h1: "0 < BUFFER_SIZE app_config" by (simp add: app_config_simps)
  from queue_and_waiters_exclusive [OF h1 run_rotation_events]
  have "imageQueue (main after_rotation) = [] \<or> queueWaiters (main after_rotation) = []" .
  then have "imageQueue (main after_rotation) = []" by (simp add: after_rotation_def)
  with h1 run_rotation_events show ?thesis by simp
qed

text \<open>
  Claim C4.  In every state reached by an execution, the frames posted by the worker are,
  in this order, the frames dequeued by \<^verbatim>\<open>queueGet\<close> (in \<^verbatim>\<open>fillBuffer\<close> and in
  \<^verbatim>\<open>animate\<close>), then the frames held in \<^verbatim>\<open>imageQueue\<close>, then the frames still under
  way to the page.  So the slot values dequeued are an initial segment of the slot values
  sent, in the same order, and no frame sent is lost or duplicated.
\<close>

theorem consumed_in_order:
  assumes "0 < BUFFER_SIZE cfg" and "run cfg es system_init = Some s"
  shows "sent s = dequeued (main s) @ imageQueue (main s) @ in_transit s
     \<and> map slotIdx (dequeued (main s)) =
         take (length (dequeued (main s))) (map slotIdx (sent s))"
proof -
  have f: "sent s = dequeued (main s) @ imageQueue (main s) @ in_transit s"
    using sys_invD(11) [OF reachable_inv [OF assms]] by (simp add: fifo_inv_def)
  show ?thesis
    by (rule conjI [OF f]) (subst f, simp)
qed

theorem consumed_in_order_witness:
  "0 < BUFFER_SIZE app_config
   \<and> run app_config rotation_events system_init = Some after_rotation
   \<and> sent after_rotation =
       dequeued (main after_rotation) @ imageQueue (main after_rotation) @ in_transit after_rotation
   \<and> map slotIdx (dequeued (main after_rotation)) = [0, 1, 2, 0]"
proof -
  have h1: "0 < BUFFER_SIZE app_config" by (simp add: app_config_simps)
  note c = consumed_in_order [OF h1 run_rotation_events]
  have "map slotIdx (dequeued (main after_rotation)) = [0, 1, 2, 0]"
    by (simp add: after_rotation_def)
  with h1 run_rotation_events c show ?thesis by simp
qed

lemma dequeued_slots:
  assumes "0 < BUFFER_SIZE cfg" and "run cfg es system_init = Some s"
  shows "map slotIdx (dequeued (main s)) =
     map (\<lambda>i. i mod BUFFER_SIZE cfg) [0 ..< length (dequeued (main s))]"
proof -
  let ?d = "dequeued (main s)"
  let ?w = "queueSpaceWaiters (worker s)"
  note inv = reachable_inv [OF assms]
  have f: "sent s = ?d @ imageQueue (main s) @ in_transit s"
    using sys_invD(11) [OF inv] by (simp add: fifo_inv_def)
  have m: "map slotIdx (sent s @ ?w) =
      map (\<lambda>i. i mod BUFFER_SIZE cfg) [0 ..< length (sent s) + length ?w]"
    using sys_invD(10) [OF inv] by (simp add: slots_inv_def)
  have le: "length ?d \<le> length (sent s) + length ?w" by (simp add: f)
  have "map slotIdx ?d = take (length ?d) (map slotIdx (sent s @ ?w))"
    by (simp add: f)
  also have "\<dots> = take (length ?d)
      (map (\<lambda>i. i mod BUFFER_SIZE cfg) [0 ..< length (sent s) + length ?w])"
    by (simp only: m)
  also have "\<dots> = map (\<lambda>i. i mod BUFFER_SIZE cfg) [0 ..< length ?d]"
    using le by (simp add: take_map min_def)
  finally show ?thesis .
qed

text \<open>
  Claim C5.  In every state reached by an execution, the \<open>i\<close>-th frame dequeued carries
  slot \<open>i mod BUFFER_SIZE\<close>.  Once the animation has been started (a frame is requested,
  or \<^verbatim>\<open>animate\<close> is suspended in \<^verbatim>\<open>queueGet\<close>), \<^verbatim>\<open>BUFFER_SIZE\<close> frames have been
  dequeued; with \<^verbatim>\<open>BUFFER_SIZE = 3\<close> the first three carry the slots 0, 1, 2 in this
  order.
\<close>

theorem slot_cycle:
  assumes "0 < BUFFER_SIZE cfg" and "run cfg es system_init = Some s"
  shows "(\<forall>i < length (dequeued (main s)). slotIdx (dequeued (main s) ! i) = i mod BUFFER_SIZE cfg)
     \<and> (frameRequested (main s) \<or> queueWaiters (main s) = [Animate] \<longrightarrow>
          BUFFER_SIZE cfg \<le> length (dequeued (main s)))
     \<and> (BUFFER_SIZE cfg = 3 \<longrightarrow> frameRequested (main s) \<or> queueWaiters (main s) = [Animate] \<longrightarrow>
          map slotIdx (take 3 (dequeued (main s))) = [0, 1, 2])"
proof -
  let ?d = "dequeued (main s)"
  note ds = dequeued_slots [OF assms]
  have a: "\<forall>i < length ?d. slotIdx (?d ! i) = i mod BUFFER_SIZE cfg"
  proof (intro allI impI)
    fix i assume i: "i < length ?d"
    then have "slotIdx (?d ! i) = map slotIdx ?d ! i" by simp
    also have "\<dots> = i mod BUFFER_SIZE cfg" using i by (simp add: ds)
    finally show "slotIdx (?d ! i) = i mod BUFFER_SIZE cfg" .
  qed
  have b: "frameRequested (main s) \<or> queueWaiters (main s) = [Animate] \<longrightarrow>
      BUFFER_SIZE cfg \<le> length ?d"
    using sys_invD(9) [OF reachable_inv [OF assms]]
    by (auto simp: phase_def idle_def filling_def running_def blocked_def)
  have c: "BUFFER_SIZE cfg = 3 \<longrightarrow> frameRequested (main s) \<or> queueWaiters (main s) = [Animate] \<longrightarrow>
      map slotIdx (take 3 ?d) = [0, 1, 2]"
  proof (intro impI)
    assume n: "BUFFER_SIZE cfg = 3" and "frameRequested (main s) \<or> queueWaiters (main s) = [Animate]"
    then have l: "3 \<le> length ?d" using b by simp
    have "map slotIdx (take 3 ?d) = take 3 (map slotIdx ?d)" by (simp add: take_map)
    also have "\<dots> = map (\<lambda>i. i mod 3) [0 ..< 3]"
      using l by (simp add: ds n take_map min_def)
    also have "\<dots> = [0, 1, 2]" by (simp add: upt_rec)
    finally show "map slotIdx (take 3 ?d) = [0, 1, 2]" .
  qed
  from a b c show ?thesis by blast
qed

theorem slot_cycle_witness:
  "0 < BUFFER_SIZE app_config
   \<and> run app_config rotation_events system_init = Some after_rotation
   \<and> slotIdx (dequeued (main after_rotation) ! 3) = 3 mod BUFFER_SIZE app_config
   \<and> BUFFER_SIZE app_config = 3
   \<and> frameRequested (main after_rotation)
   \<and> BUFFER_SIZE app_config \<le> length (dequeued (main after_rotation))
   \<and> map slotIdx (take 3 (dequeued (main after_rotation))) = [0, 1, 2]"
proof -
  have h1: "0 < BUFFER_SIZE app_config" by (simp add: app_config_simps)
  have h2: "BUFFER_SIZE app_config = 3" by (simp add: app_config_simps)
  have h3: "frameRequested (main after_rotation)" by (simp add: after_rotation_def)
  have h4: "3 < length (dequeued (main after_rotation))" by (simp add: after_rotation_def)
  from slot_cycle [OF h1 run_rotation_events] h2 h3 h4 h1 run_rotation_events
  show ?thesis by blast
qed

section \<open>Credits and notifications\<close>

text \<open>
  Claim C1.  The code does not keep the sum of credits and frames in flight at
  \<^verbatim>\<open>BUFFER_SIZE\<close>.  \<^verbatim>\<open>queuePut\<close> posts \<^verbatim>\<open>queue_has_space\<close> also when no consumer is
  waiting and nothing has been consumed, and \<^verbatim>\<open>queueGet\<close> posts it again when the same
  frame is dequeued.  With \<^verbatim>\<open>BUFFER_SIZE = 3\<close>: after the buffer has been filled, a
  fourth frame is queued and the worker handles the message this triggers; no message
  is under way in either direction, the worker holds 3 credits again and one frame is in
  flight.  Eleven animation frames later the frame is dequeued, the worker handles the
  second message for it and holds 4 credits, while the frame is still being uploaded.
\<close>

theorem credit_invariant_fails:
  "run app_config credit_events system_init = Some after_credit
   \<and> worker_read after_credit = length (m_posted (main after_credit))
   \<and> main_read after_credit = length (w_posted (worker after_credit))
   \<and> queueSpaceAvailable (worker after_credit) = 3
   \<and> framesInFlight after_credit = 1
   \<and> queueSpaceAvailable (worker after_credit) + framesInFlight after_credit
        \<noteq> BUFFER_SIZE app_config
   \<and> run app_config double_credit_events after_credit = Some after_double_credit
   \<and> worker_read after_double_credit = length (m_posted (main after_double_credit))
   \<and> main_read after_double_credit = length (w_posted (worker after_double_credit))
   \<and> queueSpaceAvailable (worker after_double_credit) = 4
   \<and> framesInFlight after_double_credit = 1
   \<and> BUFFER_SIZE app_config = 3"
  using run_credit_events run_double_credit_events
  by (simp add: after_credit_def after_double_credit_def framesInFlight_def in_transit_def
      app_config_simps)

text \<open>
  Claim C2.  The code does not post \<^verbatim>\<open>queue_has_space\<close> once per frame retired.  In
  the execution that fills the buffer, queues a fourth frame and rotates, five messages
  have been posted when four frames have been dequeued, three of them retired, and the
  upload of the fourth has not transferred a row: for the fourth frame one message was
  posted by \<^verbatim>\<open>queuePut\<close>, with no consumer waiting, and one by \<^verbatim>\<open>queueGet\<close>.  Nine
  animation frames later the upload of the fourth frame has completed and no message has
  been added; \<^verbatim>\<open>processProgressiveUpload\<close> posts none in any state.
\<close>

theorem notification_at_enqueue_and_dequeue:
  "run app_config rotation_events system_init = Some after_rotation
   \<and> m_posted (main after_rotation) =
       [Start_generating, Queue_has_space, Queue_has_space, Queue_has_space,
        Queue_has_space, Queue_has_space]
   \<and> length (dequeued (main after_rotation)) = 4
   \<and> uploads (main after_rotation) = [TexComplete 0 10, TexComplete 1 11, TexComplete 2 12]
   \<and> pendingUpload (main after_rotation) =
       Some \<lparr>p_slotIdx = 0, pboIdx = 0, rgbData = 13, rowsUploaded = 0\<rparr>
   \<and> run app_config upload_events after_rotation = Some after_upload
   \<and> pendingUpload (main after_upload) = None
   \<and> length (uploads (main after_upload)) = 12
   \<and> m_posted (main after_upload) = m_posted (main after_rotation)
   \<and> (\<forall>ms. m_posted (processProgressiveUpload app_config ms) = m_posted ms)"
  using run_rotation_events run_upload_events
  by (simp add: after_rotation_def after_upload_def double_chunks_def
      processProgressiveUpload_def Let_def split: option.splits)

section \<open>Rotation\<close>

lemma mod_pred_Suc:
  assumes "0 < (n::nat)" and "0 < d"
  shows "((d - 1) mod n + 1) mod n = d mod n"
proof -
  have "((d - 1) mod n + 1) mod n = (d - 1 + 1) mod n"
    by (simp add: mod_Suc_eq)
  then show ?thesis using assms(2) by simp
qed

lemma mod_Suc_Suc_neq:
  assumes "3 \<le> (n::nat)"
  shows "k mod n \<noteq> (k + 2) mod n"
proof
  assume "k mod n = (k + 2) mod n"
  then have "(k + 2) mod n = k mod n" by simp
  then have "n dvd (k + 2) - k" by (simp add: mod_eq_dvd_iff_nat)
  then have "n dvd 2" by simp
  then have "n \<le> 2" by (rule dvd_imp_le) simp
  then show False using assms by simp
qed

text \<open>
  Claim C6 does not hold.  With \<^verbatim>\<open>BUFFER_SIZE = 3\<close>, the frame dequeued at the first
  rotation carries slot 0 while \<^verbatim>\<open>nextTexIdx\<close> is 2 after the rotation, and nothing is
  written to the console.
\<close>

theorem rotation_slot_not_next:
  "run app_config rotation_events system_init = Some after_rotation
   \<and> slotIdx (last (dequeued (main after_rotation))) = 0
   \<and> currTexIdx (main after_rotation) = 1
   \<and> nextTexIdx (main after_rotation) = 2
   \<and> console_errors (main after_rotation) = []"
  using run_rotation_events by (simp add: after_rotation_def)

text \<open>
  Claim C6, amended.  Let \<^verbatim>\<open>BUFFER_SIZE \<ge> 2\<close>.  In every state reached by an execution
  in which a frame has been dequeued after a rotation (more than \<^verbatim>\<open>BUFFER_SIZE\<close> frames
  dequeued) and \<^verbatim>\<open>animate\<close> is not suspended in \<^verbatim>\<open>queueGet\<close>, the slot \<open>k\<close> of the frame
  dequeued last satisfies \<open>(k + 1) mod BUFFER_SIZE = currTexIdx\<close>, and
  \<open>nextTexIdx = (currTexIdx + 1) mod BUFFER_SIZE\<close>: the frame goes to the slot
  that was current before the rotation.  For \<^verbatim>\<open>BUFFER_SIZE \<ge> 3\<close> this slot differs from
  \<^verbatim>\<open>nextTexIdx\<close>.  The code compares neither.
\<close>

theorem rotation_slot:
  assumes "2 \<le> BUFFER_SIZE cfg" and "run cfg es system_init = Some s"
    and "BUFFER_SIZE cfg < length (dequeued (main s))"
    and "queueWaiters (main s) \<noteq> [Animate]"
  shows "(slotIdx (last (dequeued (main s))) + 1) mod BUFFER_SIZE cfg = currTexIdx (main s)
     \<and> nextTexIdx (main s) = (currTexIdx (main s) + 1) mod BUFFER_SIZE cfg
     \<and> (3 \<le> BUFFER_SIZE cfg \<longrightarrow> slotIdx (last (dequeued (main s))) \<noteq> nextTexIdx (main s))"
proof -
  let ?d = "dequeued (main s)"
  let ?n = "BUFFER_SIZE cfg"
  have N: "0 < ?n" using assms(1) by simp
  have ne: "?d \<noteq> []" and l: "0 < length ?d" using assms(3) by auto
  have ix: "currTexIdx (main s) = length ?d mod ?n"
           "nextTexIdx (main s) = (length ?d + 1) mod ?n"
    using reachable_index [OF assms(1,2)] assms(3,4) by (simp_all add: index_inv_def)
  have "slotIdx (last ?d) = slotIdx (?d ! (length ?d - 1))"
    using ne by (simp add: last_conv_nth)
  also have "\<dots> = map slotIdx ?d ! (length ?d - 1)" using l by simp
  also have "\<dots> = (length ?d - 1) mod ?n"
    using l by (simp add: dequeued_slots [OF N assms(2)])
  finally have sl: "slotIdx (last ?d) = (length ?d - 1) mod ?n" .
  have a: "(slotIdx (last ?d) + 1) mod ?n = currTexIdx (main s)"
    by (simp only: sl ix mod_pred_Suc [OF N l])
  have b: "nextTexIdx (main s) = (currTexIdx (main s) + 1) mod ?n"
    by (simp add: ix mod_Suc_eq)
  have c: "3 \<le> ?n \<longrightarrow> slotIdx (last ?d) \<noteq> nextTexIdx (main s)"
  proof
    assume "3 \<le> ?n"
    from mod_Suc_Suc_neq [OF this, of "length ?d - 1"] l
    show "slotIdx (last ?d) \<noteq> nextTexIdx (main s)" by (simp add: sl ix)
  qed
  from a b c show ?thesis by blast
qed

theorem rotation_slot_witness:
  "2 \<le> BUFFER_SIZE app_config
   \<and> run app_config rotation_events system_init = Some after_rotation
   \<and> BUFFER_SIZE app_config < length (dequeued (main after_rotation))
   \<and> queueWaiters (main after_rotation) \<noteq> [Animate]
   \<and> 3 \<le> BUFFER_SIZE app_config
   \<and> (slotIdx (last (dequeued (main after_rotation))) + 1) mod BUFFER_SIZE app_config
        = currTexIdx (main after_rotation)
   \<and> nextTexIdx (main after_rotation) =
        (currTexIdx (main after_rotation) + 1) mod BUFFER_SIZE app_config
   \<and> slotIdx (last (dequeued (main after_rotation))) \<noteq> nextTexIdx (main after_rotation)"
proof -
  have h1: "2 \<le> BUFFER_SIZE app_config" by (simp add: app_config_simps)
  have h3: "BUFFER_SIZE app_config < length (dequeued (main after_rotation))"
    by (simp add: app_config_simps after_rotation_def)
  have h4: "queueWaiters (main after_rotation) \<noteq> [Animate]" by (simp add: after_rotation_def)
  have h5: "3 \<le> BUFFER_SIZE app_config" by (simp add: app_config_simps)
  from rotation_slot [OF h1 run_rotation_events h3 h4] h1 run_rotation_events h3 h4 h5
  show ?thesis by blast
qed

text \<open>
  A tick of \<^verbatim>\<open>animate\<close> that starts with \<^verbatim>\<open>t > 1\<close> first runs the upload step, which
  then transfers all remaining rows: in the executions of the program the transition
  check finds no pending upload.
\<close>

lemma tick_finishes_upload:
  assumes "ieee_signs cfg" and "1 < t ms"
  shows "pendingUpload (upload_step cfg ms) = None"
proof (cases "pendingUpload ms")
  case None
  then show ?thesis by (simp add: upload_step_def)
next
  case (Some p)
  then have "pendingUpload (ms\<lparr>frameRequested := False\<rparr>) = Some p" by simp
  from ppu_Some [OF this, of cfg] show ?thesis
    using assms by (simp add: upload_step_def Some rowsToUpload_late)
qed

text \<open>
  Claim C8.  At the rotation point, the transition check of \<^verbatim>\<open>animate\<close> with
  \<^verbatim>\<open>t > 1\<close>, a pending upload is detected and reported: exactly when
  \<^verbatim>\<open>pendingUpload\<close> is not \<^verbatim>\<open>null\<close> there, one error
  (\<^verbatim>\<open>Pending upload not finished\<close>) is written to the console, whether or not a frame is
  queued, before the dequeue.  The rotation and the dequeue are then carried out, with
  the error on the console.
\<close>

theorem rotation_detects_pending:
  assumes "1 < t ms"
  shows "console_errors (animate_rotate cfg ms) =
     console_errors ms @
       (if pendingUpload ms = None then [] else [Pending_upload_not_finished])"
  using assms
  by (simp add: animate_rotate_def queueGet_def Let_def notify_space_def
      animate_resume_def animate_render_def split: list.splits)

theorem rotation_detects_pending_witness:
  "1 < t rotation_due
   \<and> pendingUpload rotation_due = Some started_pending
   \<and> rowsUploaded started_pending < g_tex_H app_config
   \<and> console_errors rotation_due = []
   \<and> console_errors (animate_rotate app_config rotation_due) = [Pending_upload_not_finished]"
proof -
  have h1: "1 < t rotation_due" by (simp add: rotation_due_def)
  have h2: "pendingUpload rotation_due = Some started_pending" by (simp add: rotation_due_def)
  have h3: "rowsUploaded started_pending < g_tex_H app_config"
    by (simp add: started_pending_def app_config_simps)
  have h4: "console_errors rotation_due = []" by (simp add: rotation_due_def main_init_def)
  from rotation_detects_pending [OF h1, of app_config] h1 h2 h3 h4
  show ?thesis by simp
qed

section \<open>Errors of the producer\<close>

text \<open>
  Claim C7 does not hold.  After the page has handled an \<^verbatim>\<open>error\<close> message (alert shown,
  no frame dequeued yet, \<^verbatim>\<open>fillBuffer\<close> suspended in its first \<^verbatim>\<open>queueGet\<close>), the worker
  goes on, the page dequeues the next frame and calls \<^verbatim>\<open>queueGet\<close> again.
\<close>

theorem receive_after_error:
  "run app_config error_events system_init = Some after_error
   \<and> alerts (main after_error) = [''Error: boom'']
   \<and> dequeued (main after_error) = []
   \<and> queueWaiters (main after_error) = [FillBuffer 0]
   \<and> run app_config [Worker_generated 10, Main_receive] after_error = Some after_error_frame
   \<and> dequeued (main after_error_frame) = [\<lparr>slotIdx = 0, imageData = 10\<rparr>]
   \<and> queueWaiters (main after_error_frame) = [FillBuffer 1]"
  using run_error_events run_error_frame
  by (simp add: after_error_def after_error_frame_def)

text \<open>
  Claim C7, amended.  On an \<^verbatim>\<open>error\<close> message the page reports the error
  (\<^verbatim>\<open>console.error\<close> and \<^verbatim>\<open>alert\<close>) and changes nothing else: a requested animation
  frame stays requested, a suspended \<^verbatim>\<open>queueGet\<close> stays suspended, the queue and a
  pending upload are kept.  In the worker a failed \<^verbatim>\<open>generateImage()\<close> posts the error
  and leaves the activation of \<^verbatim>\<open>continuousGenerate\<close> generating.
\<close>

theorem error_not_terminal:
  "main_onmessage cfg (Error d) ms =
     ms\<lparr>console_errors := console_errors ms @ [Worker_error d],
        alerts := alerts ms @ [''Error: '' @ d]\<rparr>
   \<and> frameRequested (main_onmessage cfg (Error d) ms) = frameRequested ms
   \<and> queueWaiters (main_onmessage cfg (Error d) ms) = queueWaiters ms
   \<and> imageQueue (main_onmessage cfg (Error d) ms) = imageQueue ms
   \<and> pendingUpload (main_onmessage cfg (Error d) ms) = pendingUpload ms
   \<and> generate_fail d w = w\<lparr>w_posted := w_posted w @ [Error d]\<rparr>
   \<and> generating (generate_fail d w) = generating w"
  by (simp add: main_onmessage.simps generate_fail_def)

end
